theory Spec2Isabelle
  imports Complex_Main "HOL-Library.Sublist" "HOL-Library.Multiset" "HOL-Library.AList"
begin

section \<open>Python strings and the two regular expressions of the ranking parser\<close>

text \<open>
  A Python \<open>str\<close> is modelled as a \<^typ>\<open>string\<close>. The alphabet of this
  development is the code points U+0000 .. U+00FF (one \<^typ>\<open>char\<close> each). On that
  alphabet the regular-expression class \<open>\d\<close> is exactly the ASCII digits, and \<open>\s\<close>
  (as well as the characters removed by \<open>str.strip()\<close> and separating the words of
  \<open>str.split()\<close>) is the set of the twelve white-space code points listed below.
  The class \<open>[A-Z]\<close> is the 26 ASCII capitals on every alphabet.
\<close>

datatype py_error = AttributeError | ZeroDivisionError

definition is_digit :: "char \<Rightarrow> bool" where
  "is_digit c = (c \<in> set ''0123456789'')"

definition is_space :: "char \<Rightarrow> bool" where
  "is_space c = (c \<in> set [CHR 0x09, CHR 0x0A, CHR 0x0B, CHR 0x0C, CHR 0x0D,
                             CHR 0x1C, CHR 0x1D, CHR 0x1E, CHR 0x1F, CHR 0x20,
                             CHR 0x85, CHR 0xA0])"

definition is_AZ :: "char \<Rightarrow> bool" where
  "is_AZ c = (c \<in> set ''ABCDEFGHIJKLMNOPQRSTUVWXYZ'')"

text \<open>\<open>sep in s\<close>: some position of \<open>s\<close> starts with \<open>sep\<close>.\<close>

primrec str_in :: "string \<Rightarrow> string \<Rightarrow> bool" where
  "str_in sep [] = (sep = [])"
| "str_in sep (c # cs) = (prefix sep (c # cs) \<or> str_in sep cs)"

text \<open>\<open>s.find(sep)\<close>: the index of the leftmost occurrence, \<open>None\<close> for Python's -1.\<close>

primrec find_str :: "string \<Rightarrow> string \<Rightarrow> nat option" where
  "find_str sep [] = (if sep = [] then Some 0 else None)"
| "find_str sep (c # cs) =
     (if prefix sep (c # cs) then Some 0 else map_option Suc (find_str sep cs))"

text \<open>
  \<open>s.split(sep)\<close> for a non-empty separator: the pieces between the successive
  non-overlapping occurrences of \<open>sep\<close>, found from left to right. (Python raises
  \<open>ValueError\<close> on an empty separator; the only separator of the program is the
  constant marker, so that branch is kept out of the recursion by the first test.)
\<close>

function split_str :: "string \<Rightarrow> string \<Rightarrow> string list" where
  "split_str sep s =
     (if sep = [] then [s]
      else (case find_str sep s of
              None \<Rightarrow> [s]
            | Some i \<Rightarrow> take i s # split_str sep (drop (i + length sep) s)))"
  by pat_completeness auto
termination
proof (relation "measure (\<lambda>(sep, s). length s)")
  show "wf (measure (\<lambda>(sep, s). length s))" by simp
next
  fix sep s :: string and i :: nat
  have bound: "find_str sep t = Some j \<Longrightarrow> j + length sep \<le> length t" for t j
  proof (induction t arbitrary: j)
    case Nil
    then show ?case by (simp split: if_splits)
  next
    case (Cons c cs)
    show ?case
    proof (cases "prefix sep (c # cs)")
      case True
      then have "length sep \<le> length (c # cs)" by (rule prefix_length_le)
      with True Cons.prems show ?thesis by simp
    next
      case False
      with Cons.prems obtain k where "find_str sep cs = Some k" "j = Suc k" by auto
      with Cons.IH show ?thesis by fastforce
    qed
  qed
  assume "sep \<noteq> []" and "find_str sep s = Some i"
  then have "i + length sep \<le> length s" and "0 < length sep"
    using bound by auto
  then have "length s - (i + length sep) < length s" by linarith
  then show "((sep, drop (i + length sep) s), (sep, s)) \<in> measure (\<lambda>(sep, s). length s)"
    by simp
qed

declare split_str.simps [simp del]

text \<open>
  A pattern is modelled by its anchored matcher: the text it matches at the very start
  of the argument, if any. Both patterns of the program are deterministic (a greedy
  \<open>\d+\<close> is followed by a literal dot and a greedy \<open>\s*\<close> by the letter R, so giving
  back characters never helps) and neither matches the empty string.
\<close>

text \<open>The pattern \<open>Response [A-Z]\<close>.\<close>

definition match_response :: "string \<Rightarrow> string option" where
  "match_response s =
     (if prefix ''Response '' s then
        (case drop 9 s of
           [] \<Rightarrow> None
         | c # _ \<Rightarrow> if is_AZ c then Some (''Response '' @ [c]) else None)
      else None)"

text \<open>The pattern \<open>\d+\.\s*Response [A-Z]\<close>.\<close>

definition match_numbered :: "string \<Rightarrow> string option" where
  "match_numbered s =
     (let ds = takeWhile is_digit s; r1 = dropWhile is_digit s in
      if ds = [] then None
      else (case r1 of
              [] \<Rightarrow> None
            | d # r2 \<Rightarrow>
                if d \<noteq> CHR ''.'' then None
                else (let ws = takeWhile is_space r2; r3 = dropWhile is_space r2 in
                      case match_response r3 of
                        None \<Rightarrow> None
                      | Some m \<Rightarrow> Some (ds @ ''.'' @ ws @ m))))"

text \<open>
  \<open>re.findall(p, s)\<close>: the matches of \<open>p\<close> from left to right, each search resuming
  where the previous match ended (one character further after an empty match).
\<close>

function findall :: "(string \<Rightarrow> string option) \<Rightarrow> string \<Rightarrow> string list" where
  "findall mt [] = (case mt [] of Some m \<Rightarrow> [m] | None \<Rightarrow> [])"
| "findall mt (c # cs) =
     (case mt (c # cs) of
        Some m \<Rightarrow> m # findall mt (drop (max 1 (length m)) (c # cs))
      | None \<Rightarrow> findall mt cs)"
  by pat_completeness auto
termination
  by (relation "measure (\<lambda>(mt, s). length s)") auto

text \<open>\<open>re.search(p, s)\<close>: the leftmost match, \<open>None\<close> when there is none.\<close>

primrec search :: "(string \<Rightarrow> string option) \<Rightarrow> string \<Rightarrow> string option" where
  "search mt [] = mt []"
| "search mt (c # cs) = (case mt (c # cs) of Some m \<Rightarrow> Some m | None \<Rightarrow> search mt cs)"

section \<open>The ranking parser\<close>

definition MARKER :: string where
  "MARKER = ''FINAL RANKING:''"

text \<open>
  The comprehension \<open>[re.search(r'Response [A-Z]', m).group() for m in numbered_matches]\<close>:
  \<open>.group()\<close> on the \<open>None\<close> of a failed search raises \<open>AttributeError\<close>.
\<close>

primrec group_all :: "string list \<Rightarrow> py_error + string list" where
  "group_all [] = Inr []"
| "group_all (m # ms) =
     (case search match_response m of
        None \<Rightarrow> Inl AttributeError
      | Some g \<Rightarrow> (case group_all ms of Inl e \<Rightarrow> Inl e | Inr gs \<Rightarrow> Inr (g # gs)))"

definition parse_ranking_from_text :: "string \<Rightarrow> py_error + string list" where
  "parse_ranking_from_text ranking_text =
     (if str_in MARKER ranking_text then
        (let parts = split_str MARKER ranking_text in
         if length parts \<ge> 2 then
           (let ranking_section = parts ! 1;
                numbered_matches = findall match_numbered ranking_section in
            if numbered_matches \<noteq> [] then group_all numbered_matches
            else Inr (findall match_response ranking_section))
         else Inr (findall match_response ranking_text))
      else Inr (findall match_response ranking_text))"

section \<open>Data of a council run\<close>

text \<open>
  The dictionaries the stages exchange, as records over a common \<open>model\<close> field:
  a stage-1 answer and the stage-3 synthesis are \<open>{"model", "response"}\<close>, a stage-2
  judgement is \<open>{"model", "ranking", "parsed_ranking"}\<close>, an aggregate entry is
  \<open>{"model", "average_rank", "rankings_count"}\<close>.
\<close>

record by_model =
  model :: string

record answer = by_model +
  response :: string

record judge_ranking = by_model +
  ranking :: string
  parsed_ranking :: "string list"

record aggregate_entry = by_model +
  average_rank :: rat
  rankings_count :: nat

text \<open>
  A stored conversation message, as far as \<open>format_conversation_history\<close> reads it: a
  user message with its content, an assistant message with its \<open>stage3\<close> entry
  (\<open>None\<close> when \<open>msg.get("stage3")\<close> is falsy), or a message of another role.
\<close>

datatype conv_message =
  UserMessage string
| AssistantMessage "answer option"
| OtherMessage

text \<open>One message of a chat request, \<open>{"role", "content"}\<close>.\<close>

record message =
  role :: string
  content :: string

text \<open>\<open>sep.join(xs)\<close>.\<close>

fun join :: "string \<Rightarrow> string list \<Rightarrow> string" where
  "join sep [] = []"
| "join sep [x] = x"
| "join sep (x # y # ys) = x @ sep @ join sep (y # ys)"

section \<open>Context formatter\<close>

definition history_line :: "conv_message \<Rightarrow> string list" where
  "history_line msg =
     (case msg of
        UserMessage c \<Rightarrow> [''User: '' @ c]
      | AssistantMessage None \<Rightarrow> []
      | AssistantMessage (Some s3) \<Rightarrow>
          [''Assistant: '' @
             (if length (response s3) > 200 then take 200 (response s3) @ ''...''
              else response s3)]
      | OtherMessage \<Rightarrow> [])"

definition format_conversation_history :: "conv_message list \<Rightarrow> string" where
  "format_conversation_history conversation_messages =
     (if conversation_messages = [] then ''No previous conversation history.''
      else join ''\<newline>''
             (concat (map history_line
                (drop (length conversation_messages - 6) conversation_messages))))"

section \<open>Model invoker and fan-out\<close>

text \<open>
  The transport is outside the program: it is a parameter, a function from the request
  (model, messages, token budget; temperature and time-out are the same constants in
  every call) to the content of the reply, \<open>None\<close> when \<open>query_model\<close> caught a failure
  and returned \<open>None\<close>. Every stage threads the log of the requests made so far, so
  that which invocations a run performs is part of its result.
\<close>

record call =
  call_model :: string
  call_messages :: "message list"
  call_max_tokens :: nat

type_synonym invoker = "call \<Rightarrow> string option"

definition query_model ::
  "invoker \<Rightarrow> string \<Rightarrow> message list \<Rightarrow> nat \<Rightarrow> call list \<Rightarrow> string option \<times> call list" where
  "query_model ivk mdl messages max_tokens tr =
     (let c = \<lparr>call_model = mdl, call_messages = messages, call_max_tokens = max_tokens\<rparr>
      in (ivk c, tr @ [c]))"

text \<open>The tasks of \<open>asyncio.gather\<close>, one per model, answers in the order of the models.\<close>

fun gather ::
  "invoker \<Rightarrow> string list \<Rightarrow> message list \<Rightarrow> call list \<Rightarrow> string option list \<times> call list" where
  "gather ivk [] messages tr = ([], tr)"
| "gather ivk (mdl # models) messages tr =
     (case query_model ivk mdl messages 2048 tr of
        (r, tr1) \<Rightarrow>
          (case gather ivk models messages tr1 of
             (rs, tr2) \<Rightarrow> (r # rs, tr2)))"

text \<open>
  A Python dictionary whose iteration order matters is an association list in insertion
  order; assigning to a key already present replaces its value in place
  (\<^const>\<open>AList.update\<close>).
\<close>

definition dict_of :: "('k \<times> 'v) list \<Rightarrow> ('k \<times> 'v) list" where
  "dict_of kvs = fold (\<lambda>(k, v). AList.update k v) kvs []"

definition query_models_parallel ::
  "invoker \<Rightarrow> string list \<Rightarrow> message list \<Rightarrow> call list
     \<Rightarrow> (string \<times> string option) list \<times> call list" where
  "query_models_parallel ivk models messages tr =
     (case gather ivk models messages tr of
        (responses, tr1) \<Rightarrow> (dict_of (zip models responses), tr1))"

definition COUNCIL_MODELS :: "string list" where
  "COUNCIL_MODELS =
     [''llama-3.1-8b-instant'', ''llama-3.3-70b-versatile'',
      ''openai/gpt-oss-120b'', ''openai/gpt-oss-20b'']"

definition CHAIRMAN_MODEL :: string where
  "CHAIRMAN_MODEL = ''llama-3.3-70b-versatile''"

section \<open>Python floats: true division and \<open>round(x, 2)\<close>\<close>

text \<open>
  \<open>average_rank\<close> is the float \<open>round(sum(positions) / len(positions), 2)\<close>. The sum
  and the length are exact integers; \<open>/\<close> returns the binary64 number nearest to the
  quotient and \<open>round(x, 2)\<close> returns the binary64 number nearest to the two-place decimal
  that is nearest to the exact value of \<open>x\<close>, both with ties to even. A non-negative
  binary64 number is modelled by an integer significand and the exponent of its unit;
  the exponent range is unbounded, which is exact for the numbers that occur (a mean of
  list positions lies between 1 and the length of a list).
\<close>

datatype double = Double nat int

text \<open>The value of \<open>Double m s\<close> is \<open>m * 2 ^ s\<close>.\<close>

fun double_value :: "double \<Rightarrow> rat" where
  "double_value (Double m s) =
     (if s \<ge> 0 then of_nat (m * 2 ^ nat s) else of_nat m / of_nat (2 ^ nat (- s)))"

text \<open>\<open>int.bit_length()\<close>.\<close>

fun bit_length :: "nat \<Rightarrow> nat" where
  "bit_length n = (if n = 0 then 0 else Suc (bit_length (n div 2)))"

declare bit_length.simps [simp del]

text \<open>The integer nearest to \<open>a / b\<close> (for \<open>b > 0\<close>), the even one of two nearest.\<close>

definition round_half_even_div :: "nat \<Rightarrow> nat \<Rightarrow> nat" where
  "round_half_even_div a b =
     (let q = a div b; r = a mod b in
      if 2 * r < b then q
      else if 2 * r > b then q + 1
      else if even q then q else q + 1)"

text \<open>
  The binary64 number nearest to \<open>a / b\<close> (for \<open>b > 0\<close>): with \<open>2 ^ e \<le> a / b < 2 ^ (e + 1)\<close>,
  the quotient is rounded to a multiple of \<open>2 ^ (e - 52)\<close>, which leaves 53 significant
  bits.
\<close>

definition nearest_double :: "nat \<Rightarrow> nat \<Rightarrow> double" where
  "nearest_double a b =
     (if a = 0 then Double 0 0
      else
        (let d = int (bit_length a) - int (bit_length b);
             e = (if (if d \<ge> 0 then b * 2 ^ nat d \<le> a else b \<le> a * 2 ^ nat (- d))
                  then d else d - 1);
             s = e - 52
         in if s \<ge> 0 then Double (round_half_even_div a (b * 2 ^ nat s)) s
            else Double (round_half_even_div (a * 2 ^ nat (- s)) b) s))"

text \<open>\<open>a / b\<close> on non-negative integers.\<close>

definition py_truediv :: "nat \<Rightarrow> nat \<Rightarrow> py_error + double" where
  "py_truediv a b = (if b = 0 then Inl ZeroDivisionError else Inr (nearest_double a b))"

text \<open>\<open>round(x, 2)\<close>: the nearest multiple \<open>k / 100\<close> of one hundredth, as a binary64 number.\<close>

fun py_round2 :: "double \<Rightarrow> double" where
  "py_round2 (Double m s) =
     (let k = (if s \<ge> 0 then 100 * m * 2 ^ nat s
               else round_half_even_div (100 * m) (2 ^ nat (- s)))
      in nearest_double k 100)"

section \<open>Rank aggregator\<close>

text \<open>
  \<open>model_positions\<close> is a \<open>defaultdict(list)\<close>: reading a missing key inserts it with an
  empty list, so \<open>model_positions[model_name].append(position)\<close> appends to the list of a
  key already present and adds a new key, last, otherwise.
\<close>

definition record_position ::
  "string \<Rightarrow> nat \<Rightarrow> (string \<times> nat list) list \<Rightarrow> (string \<times> nat list) list" where
  "record_position model_name position model_positions =
     AList.update model_name
       ((case map_of model_positions model_name of None \<Rightarrow> [] | Some ps \<Rightarrow> ps) @ [position])
       model_positions"

text \<open>The loop over \<open>enumerate(parsed_ranking, start=1)\<close>, from position \<open>position\<close> on.\<close>

fun walk_ranking ::
  "(string \<rightharpoonup> string) \<Rightarrow> nat \<Rightarrow> string list \<Rightarrow> (string \<times> nat list) list
     \<Rightarrow> (string \<times> nat list) list" where
  "walk_ranking label_to_model position [] model_positions = model_positions"
| "walk_ranking label_to_model position (label # rest) model_positions =
     walk_ranking label_to_model (Suc position) rest
       (case label_to_model label of
          None \<Rightarrow> model_positions
        | Some model_name \<Rightarrow> record_position model_name position model_positions)"

text \<open>The loop over \<open>stage2_results\<close>; the text of each judge is parsed again.\<close>

fun collect_positions ::
  "(string \<rightharpoonup> string) \<Rightarrow> judge_ranking list \<Rightarrow> (string \<times> nat list) list
     \<Rightarrow> py_error + (string \<times> nat list) list" where
  "collect_positions label_to_model [] model_positions = Inr model_positions"
| "collect_positions label_to_model (r # rs) model_positions =
     (case parse_ranking_from_text (ranking r) of
        Inl e \<Rightarrow> Inl e
      | Inr parsed \<Rightarrow>
          collect_positions label_to_model rs
            (walk_ranking label_to_model 1 parsed model_positions))"

text \<open>The loop over \<open>model_positions.items()\<close> that builds the unsorted aggregate.\<close>

fun aggregate_entries :: "(string \<times> nat list) list \<Rightarrow> py_error + aggregate_entry list" where
  "aggregate_entries [] = Inr []"
| "aggregate_entries ((m, positions) # rest) =
     (if positions \<noteq> [] then
        (case py_truediv (sum_list positions) (length positions) of
           Inl e \<Rightarrow> Inl e
         | Inr avg_rank \<Rightarrow>
             (case aggregate_entries rest of
                Inl e \<Rightarrow> Inl e
              | Inr es \<Rightarrow>
                  Inr (\<lparr>model = m, average_rank = double_value (py_round2 avg_rank),
                         rankings_count = length positions\<rparr> # es)))
      else aggregate_entries rest)"

text \<open>\<open>list.sort(key=...)\<close> is stable and ascending, as \<^const>\<open>sort_key\<close> is.\<close>

definition calculate_aggregate_rankings ::
  "judge_ranking list \<Rightarrow> (string \<rightharpoonup> string) \<Rightarrow> py_error + aggregate_entry list" where
  "calculate_aggregate_rankings stage2_results label_to_model =
     (case collect_positions label_to_model stage2_results [] of
        Inl e \<Rightarrow> Inl e
      | Inr model_positions \<Rightarrow>
          (case aggregate_entries model_positions of
             Inl e \<Rightarrow> Inl e
           | Inr aggregate \<Rightarrow> Inr (sort_key average_rank aggregate)))"

section \<open>Stage 1: individual answers\<close>

definition stage1_system_prompt :: "string option \<Rightarrow> string" where
  "stage1_system_prompt conversation_history =
     (case conversation_history of
        None \<Rightarrow> ''You are a helpful AI assistant.''
      | Some h \<Rightarrow>
          if h = [] then ''You are a helpful AI assistant.''
          else ''You are a helpful AI assistant continuing a conversation.\<newline>\<newline>Previous conversation:\<newline>''
               @ h
               @ ''\<newline>\<newline>Please continue the conversation naturally, considering the context above.'')"

definition stage1_messages :: "string \<Rightarrow> string option \<Rightarrow> message list" where
  "stage1_messages user_query conversation_history =
     [\<lparr>role = ''system'', content = stage1_system_prompt conversation_history\<rparr>,
      \<lparr>role = ''user'', content = user_query\<rparr>]"

text \<open>The loop over \<open>responses.items()\<close> that keeps the models that answered.\<close>

fun successful_answers :: "(string \<times> string option) list \<Rightarrow> answer list" where
  "successful_answers [] = []"
| "successful_answers ((m, None) # rest) = successful_answers rest"
| "successful_answers ((m, Some c) # rest) =
     \<lparr>model = m, response = c\<rparr> # successful_answers rest"

definition stage1_collect_responses ::
  "invoker \<Rightarrow> string \<Rightarrow> string option \<Rightarrow> call list \<Rightarrow> answer list \<times> call list" where
  "stage1_collect_responses ivk user_query conversation_history tr =
     (case query_models_parallel ivk COUNCIL_MODELS
             (stage1_messages user_query conversation_history) tr of
        (responses, tr1) \<Rightarrow> (successful_answers responses, tr1))"

section \<open>Stage 2: anonymised peer ranking\<close>

text \<open>
  \<open>[chr(65 + i) for i in range(n)]\<close>. The alphabet of this development ends at U+00FF,
  so the definition follows the source for \<open>n \<le> 191\<close>; the source goes on into the code
  points above U+00FF for longer lists.
\<close>

definition make_labels :: "nat \<Rightarrow> char list" where
  "make_labels n = map (\<lambda>i. char_of (65 + i)) [0..<n]"

text \<open>The dictionary comprehension: a later pair with an equal key would replace an earlier one.\<close>

definition make_label_to_model :: "char list \<Rightarrow> answer list \<Rightarrow> (string \<rightharpoonup> string)" where
  "make_label_to_model labels stage1_results =
     fold (\<lambda>(label, result) d. d(''Response '' @ [label] \<mapsto> model result))
          (zip labels stage1_results) Map.empty"

definition responses_text :: "char list \<Rightarrow> answer list \<Rightarrow> string" where
  "responses_text labels stage1_results =
     join ''\<newline>\<newline>''
       (map (\<lambda>(label, result). ''Response '' @ [label] @ '':\<newline>'' @ response result)
            (zip labels stage1_results))"

definition context_note :: "string option \<Rightarrow> string" where
  "context_note conversation_history =
     (case conversation_history of
        None \<Rightarrow> []
      | Some h \<Rightarrow>
          if h = [] then []
          else ''\<newline>\<newline>IMPORTANT: This is part of an ongoing conversation. \<newline>Here is the conversation history for context:\<newline>''
               @ h
               @ ''\<newline>\<newline>Consider how well each response continues the conversation naturally.'')"

definition ranking_prompt :: "string \<Rightarrow> string \<Rightarrow> string \<Rightarrow> string" where
  "ranking_prompt user_query note resp_text =
     ''You are evaluating different responses to the following question:\<newline>\<newline>Question: ''
     @ user_query @ ''\<newline>'' @ note
     @ ''\<newline>\<newline>Here are the responses from different models (anonymized):\<newline>\<newline>''
     @ resp_text
     @ ''\<newline>\<newline>Your task:\<newline>''
     @ ''1. First, evaluate each response individually. For each response, explain what it does well and what it does poorly.\<newline>''
     @ ''2. Consider how well each response understands and continues from the conversation context (if provided).\<newline>''
     @ ''3. Then, at the very end of your response, provide a final ranking.\<newline>\<newline>''
     @ ''IMPORTANT: Your final ranking MUST be formatted EXACTLY as follows:\<newline>''
     @ ''- Start with the line \"FINAL RANKING:\" (all caps, with colon)\<newline>''
     @ ''- Then list the responses from best to worst as a numbered list\<newline>''
     @ ''- Each line should be: number, period, space, then ONLY the response label (e.g., \"1. Response A\")\<newline>''
     @ ''- Do not add any other text or explanations in the ranking section\<newline>\<newline>''
     @ ''Example of the correct format for your ENTIRE response:\<newline>\<newline>''
     @ ''Response A provides good detail on X but misses Y...\<newline>''
     @ ''Response B is accurate but lacks depth on Z...\<newline>''
     @ ''Response C offers the most comprehensive answer...\<newline>\<newline>''
     @ ''FINAL RANKING:\<newline>1. Response C\<newline>2. Response A\<newline>3. Response B\<newline>\<newline>''
     @ ''Now provide your evaluation and ranking:''"

definition stage2_messages :: "string \<Rightarrow> answer list \<Rightarrow> string option \<Rightarrow> message list" where
  "stage2_messages user_query stage1_results conversation_history =
     [\<lparr>role = ''system'',
       content = ''You are an evaluator tasked with ranking responses to a question.''\<rparr>,
      \<lparr>role = ''user'',
       content = ranking_prompt user_query (context_note conversation_history)
                   (responses_text (make_labels (length stage1_results)) stage1_results)\<rparr>]"

text \<open>
  The loop over \<open>responses.items()\<close> that parses the text of every judge that answered;
  an exception of the parser would leave the loop.
\<close>

fun parse_judges :: "(string \<times> string option) list \<Rightarrow> py_error + judge_ranking list" where
  "parse_judges [] = Inr []"
| "parse_judges ((m, None) # rest) = parse_judges rest"
| "parse_judges ((m, Some full_text) # rest) =
     (case parse_ranking_from_text full_text of
        Inl e \<Rightarrow> Inl e
      | Inr parsed \<Rightarrow>
          (case parse_judges rest of
             Inl e \<Rightarrow> Inl e
           | Inr js \<Rightarrow>
               Inr (\<lparr>model = m, ranking = full_text, parsed_ranking = parsed\<rparr> # js)))"

definition stage2_collect_rankings ::
  "invoker \<Rightarrow> string \<Rightarrow> answer list \<Rightarrow> string option \<Rightarrow> call list
     \<Rightarrow> (py_error + judge_ranking list \<times> (string \<rightharpoonup> string)) \<times> call list" where
  "stage2_collect_rankings ivk user_query stage1_results conversation_history tr =
     (let labels = make_labels (length stage1_results);
          label_to_model = make_label_to_model labels stage1_results
      in case query_models_parallel ivk COUNCIL_MODELS
                (stage2_messages user_query stage1_results conversation_history) tr of
           (responses, tr1) \<Rightarrow>
             (case parse_judges responses of
                Inl e \<Rightarrow> (Inl e, tr1)
              | Inr stage2_results \<Rightarrow> (Inr (stage2_results, label_to_model), tr1)))"

section \<open>Stage 3: synthesis by the chairman\<close>

definition truncate500 :: "string \<Rightarrow> string" where
  "truncate500 t = (if length t > 500 then take 500 t @ ''...'' else t)"

definition stage1_text :: "answer list \<Rightarrow> string" where
  "stage1_text stage1_results =
     join ''\<newline>\<newline>''
       (map (\<lambda>result. ''Model: '' @ model result @ ''\<newline>Response: ''
                        @ truncate500 (response result))
            stage1_results)"

definition stage2_text :: "judge_ranking list \<Rightarrow> string" where
  "stage2_text stage2_results =
     join ''\<newline>\<newline>''
       (map (\<lambda>result. ''Model: '' @ model result @ ''\<newline>Ranking: ''
                        @ truncate500 (ranking result))
            stage2_results)"

definition context_section :: "string option \<Rightarrow> string" where
  "context_section conversation_history =
     (case conversation_history of
        None \<Rightarrow> []
      | Some h \<Rightarrow>
          if h = [] then []
          else ''\<newline>CONVERSATION HISTORY:\<newline>'' @ h @ ''\<newline>'')"

definition chairman_prompt :: "string \<Rightarrow> string \<Rightarrow> string \<Rightarrow> string \<Rightarrow> string" where
  "chairman_prompt user_query ctx s1_text s2_text =
     ''You are the Chairman of an LLM Council. Multiple AI models have provided responses to a user's question, and then ranked each other's responses.\<newline>\<newline>''
     @ ctx
     @ ''\<newline>CURRENT QUESTION: '' @ user_query
     @ ''\<newline>\<newline>STAGE 1 - Individual Responses:\<newline>'' @ s1_text
     @ ''\<newline>\<newline>STAGE 2 - Peer Rankings:\<newline>'' @ s2_text
     @ ''\<newline>\<newline>Your task as Chairman is to synthesize all of this information into a single, comprehensive, accurate answer to the user's current question. \<newline>\<newline>''
     @ ''IMPORTANT: Consider the conversation history (if provided) and make sure your response:\<newline>''
     @ ''1. Naturally continues from the previous conversation\<newline>''
     @ ''2. Acknowledges or builds upon any relevant context\<newline>''
     @ ''3. Provides a coherent answer that fits within the ongoing dialogue\<newline>''
     @ ''4. Does not repeat information unnecessarily\<newline>\<newline>''
     @ ''Provide a clear, well-reasoned final answer that represents the council's collective wisdom and continues the conversation naturally:''"

definition stage3_messages ::
  "string \<Rightarrow> answer list \<Rightarrow> judge_ranking list \<Rightarrow> string option \<Rightarrow> message list" where
  "stage3_messages user_query stage1_results stage2_results conversation_history =
     [\<lparr>role = ''system'',
       content = ''You are the Chairman synthesizing responses from multiple AI models.''\<rparr>,
      \<lparr>role = ''user'',
       content = chairman_prompt user_query (context_section conversation_history)
                   (stage1_text stage1_results) (stage2_text stage2_results)\<rparr>]"

definition stage3_synthesize_final ::
  "invoker \<Rightarrow> string \<Rightarrow> answer list \<Rightarrow> judge_ranking list \<Rightarrow> string option \<Rightarrow> call list
     \<Rightarrow> answer \<times> call list" where
  "stage3_synthesize_final ivk user_query stage1_results stage2_results conversation_history tr =
     (case query_model ivk CHAIRMAN_MODEL
             (stage3_messages user_query stage1_results stage2_results conversation_history)
             2048 tr of
        (None, tr1) \<Rightarrow>
          (\<lparr>model = CHAIRMAN_MODEL,
            response = ''Error: Unable to generate final synthesis.''\<rparr>, tr1)
      | (Some c, tr1) \<Rightarrow> (\<lparr>model = CHAIRMAN_MODEL, response = c\<rparr>, tr1))"

section \<open>Title generator\<close>

text \<open>\<open>s.strip()\<close>, \<open>s.strip(chars)\<close> and \<open>s.split()\<close>.\<close>

definition strip_where :: "(char \<Rightarrow> bool) \<Rightarrow> string \<Rightarrow> string" where
  "strip_where P s = rev (dropWhile P (rev (dropWhile P s)))"

definition py_strip :: "string \<Rightarrow> string" where
  "py_strip s = strip_where is_space s"

definition py_strip_chars :: "string \<Rightarrow> string \<Rightarrow> string" where
  "py_strip_chars chars s = strip_where (\<lambda>c. c \<in> set chars) s"

fun words_from :: "string \<Rightarrow> string \<Rightarrow> string list" where
  "words_from cur [] = (if cur = [] then [] else [cur])"
| "words_from cur (c # cs) =
     (if is_space c then (if cur = [] then words_from [] cs else cur # words_from [] cs)
      else words_from (cur @ [c]) cs)"

definition py_split_ws :: "string \<Rightarrow> string list" where
  "py_split_ws s = words_from [] s"

definition title_messages :: "string \<Rightarrow> message list" where
  "title_messages user_query =
     [\<lparr>role = ''system'', content = ''You generate concise titles for questions.''\<rparr>,
      \<lparr>role = ''user'',
       content =
         ''Generate a very short title (3-5 words maximum) that summarizes the following question.\<newline>''
         @ ''The title should be concise and descriptive. Do not use quotes or punctuation in the title.\<newline>\<newline>''
         @ ''Question: '' @ user_query @ ''\<newline>\<newline>Title:''\<rparr>]"

definition generate_conversation_title ::
  "invoker \<Rightarrow> string \<Rightarrow> call list \<Rightarrow> string \<times> call list" where
  "generate_conversation_title ivk user_query tr =
     (case query_model ivk ''groq/compound-mini'' (title_messages user_query) 30 tr of
        (None, tr1) \<Rightarrow> (join '' '' (take 4 (py_split_ws user_query)) @ ''...'', tr1)
      | (Some c, tr1) \<Rightarrow>
          (let title = py_strip c;
               title = py_strip_chars [CHR 0x22, CHR 0x27] title;
               title = (if length title > 50 then take 47 title @ ''...'' else title)
           in (if title = [] then ''New Conversation'' else title, tr1)))"

section \<open>Pipeline orchestrator: batch mode\<close>

record metadata =
  label_to_model :: "string \<rightharpoonup> string"
  aggregate_rankings :: "aggregate_entry list"
  had_context :: bool

text \<open>
  The result tuple \<open>(stage1_results, stage2_results, stage3_result, metadata)\<close>; the empty
  dictionary returned as metadata by the error exit is \<open>None\<close>.
\<close>

type_synonym council_result =
  "answer list \<times> judge_ranking list \<times> answer \<times> metadata option"

definition run_full_council ::
  "invoker \<Rightarrow> string \<Rightarrow> conv_message list \<Rightarrow> call list
     \<Rightarrow> (py_error + council_result) \<times> call list" where
  "run_full_council ivk user_query conversation_messages tr =
     (let conversation_history =
            (if conversation_messages \<noteq> []
             then Some (format_conversation_history conversation_messages) else None)
      in case stage1_collect_responses ivk user_query conversation_history tr of
           (stage1_results, tr1) \<Rightarrow>
             if stage1_results = [] then
               (Inr ([], [],
                     \<lparr>model = ''error'',
                       response = ''All models failed to respond. Please try again.''\<rparr>,
                     None), tr1)
             else
               (case stage2_collect_rankings ivk user_query stage1_results
                       conversation_history tr1 of
                  (Inl e, tr2) \<Rightarrow> (Inl e, tr2)
                | (Inr (stage2_results, l2m), tr2) \<Rightarrow>
                    (case calculate_aggregate_rankings stage2_results l2m of
                       Inl e \<Rightarrow> (Inl e, tr2)
                     | Inr agg \<Rightarrow>
                         (case stage3_synthesize_final ivk user_query stage1_results
                                 stage2_results conversation_history tr2 of
                            (stage3_result, tr3) \<Rightarrow>
                              (Inr (stage1_results, stage2_results, stage3_result,
                                    Some \<lparr>label_to_model = l2m, aggregate_rankings = agg,
                                           had_context = (conversation_history \<noteq> None)\<rparr>),
                               tr3)))))"

section \<open>Pipeline orchestrator: streaming mode\<close>

datatype event =
  Stage1Start
| Stage1Complete "answer list"
| Stage2Start
| Stage2Complete "judge_ranking list" "string \<rightharpoonup> string" "aggregate_entry list"
| Stage3Start
| Stage3Complete answer
| TitleComplete string
| Complete
| ErrorEvent py_error

text \<open>
  \<open>event_generator\<close> of \<open>send_message_stream\<close>: the events it yields, in order, and the
  invocations it makes. \<open>messages\<close> is \<open>conversation["messages"]\<close> as loaded before the
  request; the writes to the conversation store are outside this development. The title
  task is created before stage 1 and awaited after stage 3; its request is logged where
  the task is created. An exception inside the \<open>try\<close> ends the stream with an \<open>error\<close>
  event.
\<close>

definition event_generator ::
  "invoker \<Rightarrow> string \<Rightarrow> conv_message list \<Rightarrow> call list \<Rightarrow> event list \<times> call list" where
  "event_generator ivk request_content messages tr =
     (let is_first_message = (length messages = 0);
          previous_messages = butlast messages;
          history = (if previous_messages \<noteq> []
                     then Some (format_conversation_history previous_messages) else None);
          (title_task, tr0) =
            (if is_first_message
             then (case generate_conversation_title ivk request_content tr of
                     (t, tr') \<Rightarrow> (Some t, tr'))
             else (None, tr))
      in case stage1_collect_responses ivk request_content history tr0 of
           (stage1_results, tr1) \<Rightarrow>
             (case stage2_collect_rankings ivk request_content stage1_results history tr1 of
                (Inl e, tr2) \<Rightarrow>
                  ([Stage1Start, Stage1Complete stage1_results, Stage2Start, ErrorEvent e], tr2)
              | (Inr (stage2_results, l2m), tr2) \<Rightarrow>
                  (case calculate_aggregate_rankings stage2_results l2m of
                     Inl e \<Rightarrow>
                       ([Stage1Start, Stage1Complete stage1_results, Stage2Start,
                         ErrorEvent e], tr2)
                   | Inr agg \<Rightarrow>
                       (case stage3_synthesize_final ivk request_content stage1_results
                               stage2_results history tr2 of
                          (stage3_result, tr3) \<Rightarrow>
                            ([Stage1Start, Stage1Complete stage1_results,
                              Stage2Start, Stage2Complete stage2_results l2m agg,
                              Stage3Start, Stage3Complete stage3_result]
                             @ (case title_task of
                                  None \<Rightarrow> []
                                | Some title \<Rightarrow> [TitleComplete title])
                             @ [Complete], tr3)))))"

section \<open>Notions used to state the properties\<close>

text \<open>
  A numbered item of a ranking section, as the judges are asked to write it: some text
  without digits before it (\<open>lead\<close>, typically a line break), a number (\<open>digits\<close>),
  a dot, white space (\<open>gap\<close>) and the label \<open>Response X\<close> with \<open>X\<close> the \<open>letter\<close>.
  A section is the concatenation of such items, followed by text without digits.
\<close>

record numbered_line =
  lead :: string
  digits :: string
  gap :: string
  letter :: char

definition well_formed_line :: "numbered_line \<Rightarrow> bool" where
  "well_formed_line l =
     (list_all (\<lambda>x. \<not> is_digit x) (lead l) \<and> digits l \<noteq> [] \<and> list_all is_digit (digits l)
      \<and> list_all is_space (gap l) \<and> is_AZ (letter l))"

definition item_text :: "numbered_line \<Rightarrow> string" where
  "item_text l = digits l @ ''.'' @ gap l @ ''Response '' @ [letter l]"

definition label_of :: "numbered_line \<Rightarrow> string" where
  "label_of l = ''Response '' @ [letter l]"

definition section_text :: "numbered_line list \<Rightarrow> string \<Rightarrow> string" where
  "section_text ls trail = concat (map (\<lambda>l. lead l @ item_text l) ls) @ trail"

text \<open>The sequence a text is parsed to (empty where the parser would raise).\<close>

definition parsed_labels :: "string \<Rightarrow> string list" where
  "parsed_labels t = (case parse_ranking_from_text t of Inl e \<Rightarrow> [] | Inr ls \<Rightarrow> ls)"

text \<open>
  The positions, counted from \<open>k\<close>, at which a sequence of labels names a label that the
  registry maps to model \<open>m\<close>.
\<close>

definition positions_from :: "(string \<rightharpoonup> string) \<Rightarrow> string \<Rightarrow> nat \<Rightarrow> string list \<Rightarrow> nat list" where
  "positions_from reg m k ls = map fst (filter (\<lambda>(i, l). reg l = Some m) (enumerate k ls))"

text \<open>All positions recorded for model \<open>m\<close>, judge after judge (positions are 1-based).\<close>

definition recorded_positions ::
  "(string \<rightharpoonup> string) \<Rightarrow> judge_ranking list \<Rightarrow> string \<Rightarrow> nat list" where
  "recorded_positions reg js m =
     concat (map (\<lambda>j. positions_from reg m 1 (parsed_labels (ranking j))) js)"

text \<open>The number of judges whose parsed sequence names a label of model \<open>m\<close>.\<close>

definition judges_ranking_model ::
  "(string \<rightharpoonup> string) \<Rightarrow> judge_ranking list \<Rightarrow> string \<Rightarrow> nat" where
  "judges_ranking_model reg js m =
     length (filter (\<lambda>j. positions_from reg m 1 (parsed_labels (ranking j)) \<noteq> []) js)"

text \<open>\<open>round(sum(positions) / len(positions), 2)\<close> for a non-empty list of positions.\<close>

definition rounded_mean :: "nat list \<Rightarrow> rat" where
  "rounded_mean ps = double_value (py_round2 (nearest_double (sum_list ps) (length ps)))"

text \<open>The value stored for a key of \<open>model_positions\<close>, the empty list for a missing key.\<close>

definition positions_of :: "(string \<times> nat list) list \<Rightarrow> string \<Rightarrow> nat list" where
  "positions_of mp m = (case map_of mp m of None \<Rightarrow> [] | Some ps \<Rightarrow> ps)"

text \<open>A key is in the dictionary exactly when a position was recorded for it.\<close>

definition keys_recorded :: "(string \<times> nat list) list \<Rightarrow> bool" where
  "keys_recorded mp = (\<forall>m. m \<in> fst ` set mp \<longleftrightarrow> positions_of mp m \<noteq> [])"

text \<open>The entry the aggregate holds for model \<open>m\<close>.\<close>

definition entry_of :: "(string \<rightharpoonup> string) \<Rightarrow> judge_ranking list \<Rightarrow> string \<Rightarrow> aggregate_entry" where
  "entry_of reg js m =
     \<lparr>model = m, average_rank = rounded_mean (recorded_positions reg js m),
      rankings_count = length (recorded_positions reg js m)\<rparr>"

text \<open>
  \<open>t\<close> is \<open>s\<close> without its leading and trailing characters of the class \<open>P\<close>: what is
  cut off at both ends consists of such characters, and \<open>t\<close> neither starts nor ends with
  one.
\<close>

definition strips_to :: "(char \<Rightarrow> bool) \<Rightarrow> string \<Rightarrow> string \<Rightarrow> bool" where
  "strips_to P s t \<longleftrightarrow>
     (\<exists>pre suf. s = pre @ t @ suf \<and> list_all P pre \<and> list_all P suf)
     \<and> (t \<noteq> [] \<longrightarrow> \<not> P (hd t) \<and> \<not> P (last t))"

section \<open>Properties of the ranking parser\<close>

lemma str_in_iff_sublist: "str_in sep s \<longleftrightarrow> sublist sep s"
  by (induction s) (simp_all add: sublist_Cons_right)

lemma match_response_Some:
  assumes "match_response s = Some m"
  shows "\<exists>c. is_AZ c \<and> m = ''Response '' @ [c] \<and> prefix m s"
proof -
  from assms have p: "prefix ''Response '' s"
    by (simp add: match_response_def split: if_splits)
  then obtain r where s: "s = ''Response '' @ r" by (auto simp: prefix_def)
  with assms obtain c r' where "r = c # r'" "is_AZ c" "m = ''Response '' @ [c]"
    by (auto simp: match_response_def split: list.splits if_splits)
  with s show ?thesis by auto
qed

lemma match_response_R: "x \<noteq> CHR ''R'' \<Longrightarrow> match_response (x # r) = None"
  by (simp add: match_response_def)

lemma match_response_hit:
  "is_AZ c \<Longrightarrow> match_response (''Response '' @ c # r) = Some (''Response '' @ [c])"
  by (simp add: match_response_def)

lemma findall_none: "(\<And>u. suffix u s \<Longrightarrow> mt u = None) \<Longrightarrow> findall mt s = []"
proof (induction s)
  case Nil
  then show ?case by simp
next
  case (Cons c cs)
  have "mt (c # cs) = None" using Cons.prems by simp
  moreover have "findall mt cs = []"
    using Cons.prems by (intro Cons.IH) (simp add: suffix_Cons)
  ultimately show ?case by simp
qed

lemma findall_response_none:
  assumes "\<And>c. is_AZ c \<Longrightarrow> \<not> sublist (''Response '' @ [c]) t"
  shows "findall match_response t = []"
proof (rule findall_none)
  fix u assume u: "suffix u t"
  show "match_response u = None"
  proof (cases "match_response u")
    case None
    then show ?thesis .
  next
    case (Some m)
    then obtain c where c: "is_AZ c" "m = ''Response '' @ [c]" "prefix m u"
      using match_response_Some by blast
    from c(3) u have "sublist m t"
      using sublist_altdef' by blast
    with c assms show ?thesis by blast
  qed
qed

lemma find_str_None_iff: "find_str sep s = None \<longleftrightarrow> \<not> sublist sep s"
  by (induction s) (auto simp: sublist_Cons_right)

lemma marker_no_border:
  assumes "u \<noteq> []" and "prefix MARKER (u @ MARKER @ r)"
  shows "prefix MARKER u"
proof -
  from assms(2) consider "prefix MARKER u"
    | us where "MARKER = u @ us" "prefix us (MARKER @ r)"
    by (auto simp: prefix_append)
  then show ?thesis
  proof cases
    case 1
    then show ?thesis .
  next
    case 2
    show ?thesis
    proof (cases "us = []")
      case True
      with 2 show ?thesis by simp
    next
      case False
      from assms(1) obtain x u' where u: "u = x # u'" by (cases u) auto
      from 2(1) u have "''FINAL RANKING:'' = x # (u' @ us)" by (simp add: MARKER_def)
      then have tl: "''INAL RANKING:'' = u' @ us" by simp
      from False obtain y us' where us: "us = y # us'" by (cases us) auto
      from 2(2) us have "prefix (y # us') (CHR ''F'' # ''INAL RANKING:'' @ r)" by (simp add: MARKER_def)
      then have "y = CHR ''F''" by simp
      with us have "CHR ''F'' \<in> set us" by simp
      then have "CHR ''F'' \<in> set (u' @ us)" by simp
      with tl have "CHR ''F'' \<in> set ''INAL RANKING:''" by simp
      then show ?thesis by simp
    qed
  qed
qed

lemma find_str_prefix: "prefix sep s \<Longrightarrow> find_str sep s = Some 0"
  by (cases s) auto

lemma find_str_marker_start: "find_str MARKER (MARKER @ r) = Some 0" by (rule find_str_prefix) simp

lemma marker_not_prefix:
  assumes "\<not> sublist MARKER (c # p)"
  shows "\<not> prefix MARKER ((c # p) @ MARKER @ r)"
  proof
    assume "prefix MARKER ((c # p) @ MARKER @ r)"
    then have "prefix MARKER (c # p)" using marker_no_border[of "c # p" r] by blast
    then have "sublist MARKER (c # p)" by (rule prefix_imp_sublist)
    with assms show False by blast
  qed

lemma find_str_first_marker:
  "\<not> sublist MARKER pre \<Longrightarrow> find_str MARKER (pre @ MARKER @ r) = Some (length pre)"
proof (induction pre)
  case Nil
  show ?case using find_str_marker_start [of r] by simp
next
  case (Cons c p)
  have "\<not> prefix MARKER ((c # p) @ MARKER @ r)" using Cons.prems by (rule marker_not_prefix)
  then have np: "\<not> prefix MARKER (c # (p @ MARKER @ r))" by simp
  from Cons.prems have "\<not> sublist MARKER p" using sublist_Cons_right[of MARKER c p] by blast
  then have ih: "find_str MARKER (p @ MARKER @ r) = Some (length p)" by (rule Cons.IH)
  have "find_str MARKER (c # (p @ MARKER @ r)) = map_option Suc (find_str MARKER (p @ MARKER @ r))"
    using np by (simp only: find_str.simps if_False)
  with ih show ?case by simp
qed

lemma MARKER_nonempty: "MARKER \<noteq> []"
  by (simp add: MARKER_def)

lemma split_str_first_marker:
  assumes "\<not> sublist MARKER pre"
  shows "split_str MARKER (pre @ MARKER @ r) = pre # split_str MARKER r"
proof -
  have f: "find_str MARKER (pre @ MARKER @ r) = Some (length pre)"
    using assms by (rule find_str_first_marker)
  have "split_str MARKER (pre @ MARKER @ r) =
        take (length pre) (pre @ MARKER @ r)
          # split_str MARKER (drop (length pre + length MARKER) (pre @ MARKER @ r))"
    by (subst split_str.simps) (simp add: f MARKER_nonempty)
  then show ?thesis by simp
qed

lemma split_str_no_marker:
  assumes "\<not> sublist MARKER s"
  shows "split_str MARKER s = [s]"
proof -
  from assms have "find_str MARKER s = None" by (simp add: find_str_None_iff)
  then show ?thesis by (subst split_str.simps) simp
qed

lemma ranking_section:
  assumes "\<not> sublist MARKER pre" and "\<not> sublist MARKER sec"
    and "rest = [] \<or> prefix MARKER rest"
  shows "\<exists>more. split_str MARKER (pre @ MARKER @ sec @ rest) = pre # sec # more"
proof -
  have 1: "split_str MARKER (pre @ MARKER @ sec @ rest) = pre # split_str MARKER (sec @ rest)"
    using assms(1) by (rule split_str_first_marker)
  from assms(3) have "\<exists>more. split_str MARKER (sec @ rest) = sec # more"
  proof
    assume "rest = []"
    with assms(2) show ?thesis by (simp add: split_str_no_marker)
  next
    assume "prefix MARKER rest"
    then obtain r where "rest = MARKER @ r" by (auto simp: prefix_def)
    with split_str_first_marker [OF assms(2), of r] show ?thesis by simp
  qed
  with 1 show ?thesis by auto
qed

lemma not_digit_dot: "\<not> is_digit CHR ''.''"
  by (simp add: is_digit_def)

lemma not_space_R: "\<not> is_space CHR ''R''"
  by (simp add: is_space_def)

lemma match_numbered_nondigit: "\<not> is_digit x \<Longrightarrow> match_numbered (x # r) = None"
  by (simp add: match_numbered_def)

lemma match_numbered_Nil: "match_numbered [] = None"
  by (simp add: match_numbered_def)

lemma match_numbered_item:
  assumes "ds \<noteq> []" "list_all is_digit ds" "list_all is_space ws" "is_AZ c"
  shows "match_numbered (ds @ ''.'' @ ws @ ''Response '' @ c # r)
         = Some (ds @ ''.'' @ ws @ ''Response '' @ [c])"
proof -
  let ?s = "ds @ ''.'' @ ws @ ''Response '' @ c # r"
  have d: "\<And>x. x \<in> set ds \<Longrightarrow> is_digit x" using assms(2) by (simp add: list_all_iff)
  have w: "\<And>x. x \<in> set ws \<Longrightarrow> is_space x" using assms(3) by (simp add: list_all_iff)
  have t1: "takeWhile is_digit ?s = ds"
    using d not_digit_dot by (simp add: takeWhile_append2)
  have d1: "dropWhile is_digit ?s = CHR ''.'' # (ws @ ''Response '' @ c # r)"
    using d not_digit_dot by (simp add: dropWhile_append2)
  have t2: "takeWhile is_space (ws @ ''Response '' @ c # r) = ws"
    using w not_space_R by (simp add: takeWhile_append2)
  have d2: "dropWhile is_space (ws @ ''Response '' @ c # r) = ''Response '' @ c # r"
    using w not_space_R by (simp add: dropWhile_append2)
  have m: "match_response (''Response '' @ c # r) = Some (''Response '' @ [c])"
    using assms(4) by (rule match_response_hit)
  show ?thesis
    unfolding match_numbered_def t1 d1 Let_def
    using assms(1) by (simp only: list.case if_False not_False_eq_True simp_thms t2 d2 m option.case)
qed

lemma findall_numbered_skip:
  "list_all (\<lambda>x. \<not> is_digit x) js \<Longrightarrow>
     findall match_numbered (js @ s) = findall match_numbered s"
proof (induction js)
  case Nil
  then show ?case by simp
next
  case (Cons x js)
  then have "match_numbered (x # (js @ s)) = None"
    by (simp add: match_numbered_nondigit)
  then have "findall match_numbered (x # (js @ s)) = findall match_numbered (js @ s)"
    by simp
  with Cons show ?case by simp
qed

lemma findall_numbered_trail:
  "list_all (\<lambda>x. \<not> is_digit x) trail \<Longrightarrow> findall match_numbered trail = []"
  using findall_numbered_skip [of trail "[]"] by (simp add: match_numbered_Nil)

lemma findall_numbered_item:
  assumes "well_formed_line l"
  shows "findall match_numbered (item_text l @ r) = item_text l # findall match_numbered r"
proof -
  from assms obtain d ds where ds: "digits l = d # ds"
    by (cases "digits l") (auto simp: well_formed_line_def)
  have m: "match_numbered (digits l @ ''.'' @ gap l @ ''Response '' @ letter l # r)
           = Some (item_text l)"
    unfolding item_text_def
    using assms by (intro match_numbered_item) (auto simp: well_formed_line_def)
  have eq: "item_text l @ r = d # (ds @ ''.'' @ gap l @ ''Response '' @ letter l # r)"
    by (simp add: item_text_def ds)
  have "match_numbered (d # (ds @ ''.'' @ gap l @ ''Response '' @ letter l # r))
        = Some (item_text l)"
    using m by (simp add: ds)
  then have "findall match_numbered (d # (ds @ ''.'' @ gap l @ ''Response '' @ letter l # r))
        = item_text l # findall match_numbered
            (drop (max 1 (length (item_text l)))
               (d # (ds @ ''.'' @ gap l @ ''Response '' @ letter l # r)))"
    by simp
  moreover have "max 1 (length (item_text l)) = length (item_text l)"
    by (simp add: item_text_def)
  moreover have "drop (length (item_text l)) (item_text l @ r) = r"
    by simp
  ultimately show ?thesis by (simp only: eq [symmetric])
qed

lemma findall_numbered_section:
  assumes "list_all well_formed_line ls" and "list_all (\<lambda>x. \<not> is_digit x) trail"
  shows "findall match_numbered (section_text ls trail) = map item_text ls"
  using assms(1)
proof (induction ls)
  case Nil
  then show ?case using assms(2) by (simp add: section_text_def findall_numbered_trail)
next
  case (Cons l ls)
  then have wf: "well_formed_line l" and IH: "findall match_numbered (section_text ls trail) = map item_text ls"
    by simp_all
  have "section_text (l # ls) trail = lead l @ (item_text l @ section_text ls trail)"
    by (simp add: section_text_def)
  moreover have "findall match_numbered (lead l @ (item_text l @ section_text ls trail))
      = findall match_numbered (item_text l @ section_text ls trail)"
    using wf by (intro findall_numbered_skip) (simp add: well_formed_line_def)
  ultimately show ?case using findall_numbered_item [OF wf] IH by simp
qed

lemma search_response_skip:
  "list_all (\<lambda>x. x \<noteq> CHR ''R'') pre \<Longrightarrow>
     search match_response (pre @ s) = search match_response s"
proof (induction pre)
  case Nil
  then show ?case by simp
next
  case (Cons x pre)
  then have "match_response (x # (pre @ s)) = None" by (simp add: match_response_R)
  with Cons show ?case by simp
qed

lemma digit_not_R: "is_digit x \<Longrightarrow> x \<noteq> CHR ''R''"
  by (auto simp: is_digit_def)

lemma space_not_R: "is_space x \<Longrightarrow> x \<noteq> CHR ''R''"
  by (auto simp: is_space_def)

lemma search_item:
  assumes "well_formed_line l"
  shows "search match_response (item_text l) = Some (label_of l)"
proof -
  have "\<And>x. x \<in> set (digits l) \<Longrightarrow> x \<noteq> CHR ''R''"
    using assms digit_not_R by (auto simp: well_formed_line_def list_all_iff)
  moreover have "\<And>x. x \<in> set (gap l) \<Longrightarrow> x \<noteq> CHR ''R''"
    using assms space_not_R by (auto simp: well_formed_line_def list_all_iff)
  ultimately have p: "list_all (\<lambda>x. x \<noteq> CHR ''R'') (digits l @ ''.'' @ gap l)"
    by (auto simp: list_all_iff)
  have "item_text l = (digits l @ ''.'' @ gap l) @ ''Response '' @ [letter l]"
    by (simp add: item_text_def)
  then have "search match_response (item_text l)
        = search match_response (''Response '' @ [letter l])"
    using search_response_skip [OF p] by simp
  also have "\<dots> = Some (label_of l)"
    using assms match_response_hit [of "letter l" "[]"]
    by (simp add: well_formed_line_def label_of_def)
  finally show ?thesis .
qed

lemma group_all_items:
  "list_all well_formed_line ls \<Longrightarrow> group_all (map item_text ls) = Inr (map label_of ls)"
  by (induction ls) (simp_all add: search_item)

lemmas parser_eval =
  parse_ranking_from_text_def MARKER_def split_str.simps match_numbered_def
  match_response_def is_digit_def is_space_def is_AZ_def

text \<open>
  The section the parser reads is the second part of the split at the marker: the text
  between the first occurrence of \<open>FINAL RANKING:\<close> and the next one (or the end of the
  text). When that section is a non-empty sequence of numbered items
  \<open><digits>.<white space>Response <letter>\<close> separated and followed by digit-free text,
  the parser returns the labels of the items in their order; labels mentioned before the
  marker are not read.
\<close>

lemma numbered_section_parsed:
  assumes "\<not> sublist MARKER pre"
    and "\<not> sublist MARKER (section_text ls trail)"
    and "rest = [] \<or> prefix MARKER rest"
    and "ls \<noteq> []"
    and "list_all well_formed_line ls"
    and "list_all (\<lambda>x. \<not> is_digit x) trail"
  shows "parse_ranking_from_text (pre @ MARKER @ section_text ls trail @ rest)
         = Inr (map label_of ls)"
proof -
  let ?sec = "section_text ls trail"
  let ?t = "pre @ MARKER @ ?sec @ rest"
  have "sublist MARKER ?t" by (rule sublist_appendI)
  then have m: "str_in MARKER ?t" by (simp only: str_in_iff_sublist)
  obtain more where parts: "split_str MARKER ?t = pre # ?sec # more"
    using ranking_section [OF assms(1,2,3)] by blast
  have num: "findall match_numbered ?sec = map item_text ls"
    using assms(5,6) by (rule findall_numbered_section)
  with assms(4) have ne: "findall match_numbered ?sec \<noteq> []" by simp
  have "parse_ranking_from_text ?t = group_all (findall match_numbered ?sec)"
    unfolding parse_ranking_from_text_def using m parts ne by (simp add: Let_def)
  also have "\<dots> = Inr (map label_of ls)"
    unfolding num using assms(5) by (rule group_all_items)
  finally show ?thesis .
qed

lemma numbered_section_parsed_example:
  "parse_ranking_from_text
     ''Response B is vague. Response A is fine.\<newline>FINAL RANKING:\<newline>1. Response C\<newline>2. Response A\<newline>3. Response B''
   = Inr [''Response C'', ''Response A'', ''Response B'']"
proof -
  let ?ls = "[\<lparr>lead = ''\<newline>'', digits = ''1'', gap = '' '', letter = CHR ''C''\<rparr>,
              \<lparr>lead = ''\<newline>'', digits = ''2'', gap = '' '', letter = CHR ''A''\<rparr>,
              \<lparr>lead = ''\<newline>'', digits = ''3'', gap = '' '', letter = CHR ''B''\<rparr>]"
  let ?pre = "''Response B is vague. Response A is fine.\<newline>''"
  have h1: "\<not> sublist MARKER ?pre"
    by (simp add: MARKER_def sublist_Cons_right)
  have h2: "\<not> sublist MARKER (section_text ?ls [])"
    by (simp add: MARKER_def sublist_Cons_right section_text_def item_text_def)
  have h3: "([]::string) = [] \<or> prefix MARKER []" by simp
  have h4: "?ls \<noteq> []" by simp
  have h5: "list_all well_formed_line ?ls"
    by (simp add: well_formed_line_def is_digit_def is_space_def is_AZ_def)
  have h6: "list_all (\<lambda>x. \<not> is_digit x) []" by simp
  have "parse_ranking_from_text (?pre @ MARKER @ section_text ?ls [] @ [])
        = Inr (map label_of ?ls)"
    by (rule numbered_section_parsed [OF h1 h2 h3 h4 h5 h6])
  then show ?thesis
    by (simp add: MARKER_def section_text_def item_text_def label_of_def)
qed

text \<open>
  Claim C2. A ranking text that contains the marker \<open>FINAL RANKING:\<close> followed by the
  numbered lines \<open>1. Response B\<close>, \<open>2. Response A\<close> should parse to exactly those labels
  in that order. The parser does not do so when the marker also occurs earlier in the
  text: it reads the text between the first and the second occurrence of the marker. On
  the text below the marker is followed by the two numbered lines (and the text ends
  with them), yet the result is the order of mention in the critique, \<open>Response A\<close> before
  \<open>Response B\<close>, the reverse of the stated ranking; the same final section on its own
  parses to the stated ranking.
\<close>

theorem parse_repeated_marker:
  "suffix (MARKER @ ''\<newline>1. Response B\<newline>2. Response A'')
     ''My FINAL RANKING: weighs accuracy; Response A is weaker than Response B.\<newline>FINAL RANKING:\<newline>1. Response B\<newline>2. Response A''
   \<and> parse_ranking_from_text
        ''My FINAL RANKING: weighs accuracy; Response A is weaker than Response B.\<newline>FINAL RANKING:\<newline>1. Response B\<newline>2. Response A''
      = Inr [''Response A'', ''Response B'']
   \<and> parse_ranking_from_text ''FINAL RANKING:\<newline>1. Response B\<newline>2. Response A''
      = Inr [''Response B'', ''Response A'']"
proof (intro conjI)
  show "suffix (MARKER @ ''\<newline>1. Response B\<newline>2. Response A'')
     ''My FINAL RANKING: weighs accuracy; Response A is weaker than Response B.\<newline>FINAL RANKING:\<newline>1. Response B\<newline>2. Response A''"
    by (simp add: MARKER_def suffix_Cons)
  show "parse_ranking_from_text
        ''My FINAL RANKING: weighs accuracy; Response A is weaker than Response B.\<newline>FINAL RANKING:\<newline>1. Response B\<newline>2. Response A''
      = Inr [''Response A'', ''Response B'']"
    by (simp add: parser_eval)
  show "parse_ranking_from_text ''FINAL RANKING:\<newline>1. Response B\<newline>2. Response A''
      = Inr [''Response B'', ''Response A'']"
    by (simp add: parser_eval)
qed

subsection \<open>The parser never raises\<close>

lemma findall_set: "m \<in> set (findall mt s) \<Longrightarrow> \<exists>u. mt u = Some m"
proof (induction mt s rule: findall.induct)
  case (1 mt)
  then show ?case by (auto split: option.splits)
next
  case (2 mt c cs)
  show ?case
  proof (cases "mt (c # cs)")
    case None
    with 2 show ?thesis by simp
  next
    case (Some m')
    with 2 show ?thesis by auto
  qed
qed

lemma match_numbered_Some:
  assumes "match_numbered s = Some m"
  shows "\<exists>ds ws c. m = ds @ ''.'' @ ws @ ''Response '' @ [c]
           \<and> list_all is_digit ds \<and> list_all is_space ws \<and> is_AZ c"
proof -
  let ?ds = "takeWhile is_digit s"
  from assms obtain r2 where r1: "dropWhile is_digit s = CHR ''.'' # r2"
    by (auto simp: match_numbered_def Let_def split: if_splits list.splits)
  let ?ws = "takeWhile is_space r2"
  from assms r1 obtain m' where m': "match_response (dropWhile is_space r2) = Some m'"
      and m: "m = ?ds @ ''.'' @ ?ws @ m'"
    by (auto simp: match_numbered_def Let_def split: if_splits option.splits)
  from m' obtain c where c: "is_AZ c" "m' = ''Response '' @ [c]"
    using match_response_Some by blast
  have "list_all is_digit ?ds" by (simp add: list_all_iff) (meson set_takeWhileD)
  moreover have "list_all is_space ?ws" by (simp add: list_all_iff) (meson set_takeWhileD)
  ultimately show ?thesis using m c by blast
qed

lemma search_numbered_match:
  assumes "match_numbered s = Some m"
  shows "\<exists>g. search match_response m = Some g"
proof -
  from assms obtain ds ws c where m: "m = ds @ ''.'' @ ws @ ''Response '' @ [c]"
      and d: "list_all is_digit ds" and w: "list_all is_space ws" and c: "is_AZ c"
    using match_numbered_Some by blast
  have "\<And>x. x \<in> set ds \<Longrightarrow> x \<noteq> CHR ''R''"
    using d digit_not_R by (auto simp: list_all_iff)
  moreover have "\<And>x. x \<in> set ws \<Longrightarrow> x \<noteq> CHR ''R''"
    using w space_not_R by (auto simp: list_all_iff)
  ultimately have p: "list_all (\<lambda>x. x \<noteq> CHR ''R'') (ds @ ''.'' @ ws)"
    by (auto simp: list_all_iff)
  have "m = (ds @ ''.'' @ ws) @ ''Response '' @ [c]" using m by simp
  then have "search match_response m = search match_response (''Response '' @ [c])"
    using search_response_skip [OF p] by simp
  also have "\<dots> = Some (''Response '' @ [c])"
    using c match_response_hit [of c "[]"] by simp
  finally show ?thesis by blast
qed

lemma group_all_total:
  "(\<And>m. m \<in> set ms \<Longrightarrow> \<exists>g. search match_response m = Some g) \<Longrightarrow> \<exists>gs. group_all ms = Inr gs"
proof (induction ms)
  case Nil
  then show ?case by simp
next
  case (Cons m ms)
  then obtain g where "search match_response m = Some g" by auto
  moreover from Cons obtain gs where "group_all ms = Inr gs" by auto
  ultimately show ?case by simp
qed

lemma parse_total: "\<exists>ls. parse_ranking_from_text t = Inr ls"
proof -
  have "\<exists>gs. group_all (findall match_numbered s) = Inr gs" for s
  proof (rule group_all_total)
    fix m assume "m \<in> set (findall match_numbered s)"
    then obtain u where "match_numbered u = Some m" using findall_set by blast
    then show "\<exists>g. search match_response m = Some g" by (rule search_numbered_match)
  qed
  then show ?thesis
    by (auto simp: parse_ranking_from_text_def Let_def)
qed

lemma parse_parsed_labels: "parse_ranking_from_text t = Inr (parsed_labels t)"
  using parse_total [of t] by (auto simp: parsed_labels_def)

text \<open>
  Claim C9. A text that contains neither the marker \<open>FINAL RANKING:\<close> nor any substring
  \<open>Response X\<close> with \<open>X\<close> an upper-case letter is parsed to the empty sequence; the parser
  returns (\<open>Inr\<close>), it does not raise.
\<close>

theorem parse_without_marker_or_label:
  assumes "\<not> sublist MARKER t"
    and "\<forall>c. is_AZ c \<longrightarrow> \<not> sublist (''Response '' @ [c]) t"
  shows "parse_ranking_from_text t = Inr []"
proof -
  from assms(1) have "\<not> str_in MARKER t" by (simp add: str_in_iff_sublist)
  moreover from assms(2) have "findall match_response t = []"
    by (intro findall_response_none) blast
  ultimately show ?thesis by (simp add: parse_ranking_from_text_def)
qed

theorem parse_without_marker_or_label_witness:
  "parse_ranking_from_text ''I would rather not rank these answers.'' = Inr []"
proof -
  have h1: "\<not> sublist MARKER ''I would rather not rank these answers.''"
    by (simp add: MARKER_def sublist_Cons_right)
  have h2: "\<forall>c. is_AZ c \<longrightarrow>
      \<not> sublist (''Response '' @ [c]) ''I would rather not rank these answers.''"
    by (simp add: sublist_Cons_right)
  show ?thesis by (rule parse_without_marker_or_label [OF h1 h2])
qed

section \<open>Properties of the rank aggregator\<close>

subsection \<open>The dictionary of recorded positions\<close>

lemma positions_of_Nil: "positions_of [] m = []"
  by (simp add: positions_of_def)

lemma positions_of_record:
  "positions_of (record_position m p mp) m' =
     (if m' = m then positions_of mp m @ [p] else positions_of mp m')"
  by (simp add: positions_of_def record_position_def update_conv')

lemma keys_record: "fst ` set (record_position m p mp) = insert m (fst ` set mp)"
  by (simp add: record_position_def dom_update)

lemma distinct_record:
  "distinct (map fst mp) \<Longrightarrow> distinct (map fst (record_position m p mp))"
  by (simp add: record_position_def distinct_update)

lemma positions_from_Nil: "positions_from reg m k [] = []"
  by (simp add: positions_from_def)

lemma positions_from_Cons:
  "positions_from reg m k (l # ls) =
     (if reg l = Some m then [k] else []) @ positions_from reg m (Suc k) ls"
  by (simp add: positions_from_def)

lemma positions_of_walk:
  "positions_of (walk_ranking reg k ls mp) m = positions_of mp m @ positions_from reg m k ls"
proof (induction ls arbitrary: k mp)
  case Nil
  then show ?case by (simp add: positions_from_Nil)
next
  case (Cons l ls)
  show ?case
  proof (cases "reg l")
    case None
    then show ?thesis by (simp add: Cons.IH positions_from_Cons)
  next
    case (Some m')
    then show ?thesis by (simp add: Cons.IH positions_from_Cons positions_of_record)
  qed
qed

lemma distinct_walk:
  "distinct (map fst mp) \<Longrightarrow> distinct (map fst (walk_ranking reg k ls mp))"
proof (induction ls arbitrary: k mp)
  case Nil
  then show ?case by simp
next
  case (Cons l ls)
  then show ?case by (cases "reg l") (simp_all add: distinct_record)
qed

lemma keys_recorded_Nil: "keys_recorded []"
  by (simp add: keys_recorded_def positions_of_Nil)

lemma keys_recorded_record:
  assumes "keys_recorded mp"
  shows "keys_recorded (record_position m p mp)"
  unfolding keys_recorded_def
proof
  fix m'
  show "m' \<in> fst ` set (record_position m p mp) \<longleftrightarrow> positions_of (record_position m p mp) m' \<noteq> []"
    using assms by (auto simp: keys_recorded_def keys_record positions_of_record)
qed

lemma keys_recorded_walk:
  "keys_recorded mp \<Longrightarrow> keys_recorded (walk_ranking reg k ls mp)"
proof (induction ls arbitrary: k mp)
  case Nil
  then show ?case by simp
next
  case (Cons l ls)
  then show ?case by (cases "reg l") (simp_all add: keys_recorded_record)
qed

lemma collect_positions_result:
  assumes "distinct (map fst mp)" and "keys_recorded mp"
  shows "\<exists>mp'. collect_positions reg js mp = Inr mp'
           \<and> distinct (map fst mp') \<and> keys_recorded mp'
           \<and> (\<forall>m. positions_of mp' m = positions_of mp m @ recorded_positions reg js m)"
  using assms
proof (induction js arbitrary: mp)
  case Nil
  then show ?case by (simp add: recorded_positions_def)
next
  case (Cons j js)
  let ?mp1 = "walk_ranking reg 1 (parsed_labels (ranking j)) mp"
  have d: "distinct (map fst ?mp1)" using Cons.prems(1) by (rule distinct_walk)
  have k: "keys_recorded ?mp1" using Cons.prems(2) by (rule keys_recorded_walk)
  from Cons.IH [OF d k] obtain mp' where mp': "collect_positions reg js ?mp1 = Inr mp'"
      "distinct (map fst mp')" "keys_recorded mp'"
      "\<forall>m. positions_of mp' m = positions_of ?mp1 m @ recorded_positions reg js m"
    by blast
  have "collect_positions reg (j # js) mp = Inr mp'"
    using mp'(1) by (simp add: parse_parsed_labels)
  moreover have "\<forall>m. positions_of mp' m = positions_of mp m @ recorded_positions reg (j # js) m"
    using mp'(4) by (simp add: positions_of_walk recorded_positions_def)
  ultimately show ?case using mp'(2,3) by blast
qed

lemma aggregate_entries_result:
  "aggregate_entries mp =
     Inr (map (\<lambda>(m, ps). \<lparr>model = m, average_rank = rounded_mean ps, rankings_count = length ps\<rparr>)
              (filter (\<lambda>(m, ps). ps \<noteq> []) mp))"
proof (induction mp)
  case Nil
  then show ?case by simp
next
  case (Cons a mp)
  obtain m ps where a: "a = (m, ps)" by (cases a)
  show ?case
  proof (cases "ps = []")
    case True
    with a Cons show ?thesis by simp
  next
    case False
    then have "py_truediv (sum_list ps) (length ps) = Inr (nearest_double (sum_list ps) (length ps))"
      by (simp add: py_truediv_def)
    with a Cons False show ?thesis by (simp add: rounded_mean_def)
  qed
qed

lemma positions_of_member:
  assumes "distinct (map fst mp)" and "(m, ps) \<in> set mp"
  shows "positions_of mp m = ps"
  using assms by (simp add: positions_of_def)

lemma aggregate_characterisation:
  "\<exists>ks. distinct ks \<and> set ks = {m. recorded_positions reg js m \<noteq> []}
        \<and> calculate_aggregate_rankings js reg
            = Inr (sort_key average_rank (map (entry_of reg js) ks))"
proof -
  have "distinct (map fst ([] :: (string \<times> nat list) list))" by simp
  from collect_positions_result [OF this keys_recorded_Nil, of reg js]
  obtain mp where mp: "collect_positions reg js [] = Inr mp" "distinct (map fst mp)"
      "keys_recorded mp" "\<forall>m. positions_of mp m = recorded_positions reg js m"
    by (auto simp: positions_of_Nil)
  have val: "ps = recorded_positions reg js m" if "(m, ps) \<in> set mp" for m ps
    using positions_of_member [OF mp(2) that] mp(4) by simp
  have ne: "ps \<noteq> []" if "(m, ps) \<in> set mp" for m ps
  proof -
    from that have "m \<in> fst ` set mp" by force
    with mp(3) have "positions_of mp m \<noteq> []" by (simp add: keys_recorded_def)
    with positions_of_member [OF mp(2) that] show ?thesis by simp
  qed
  have f: "filter (\<lambda>(m, ps). ps \<noteq> []) mp = mp"
    using ne by (auto simp: filter_id_conv)
  have e: "map (\<lambda>(m, ps). \<lparr>model = m, average_rank = rounded_mean ps, rankings_count = length ps\<rparr>) mp
        = map (entry_of reg js) (map fst mp)"
    using val by (auto simp: entry_of_def)
  have "calculate_aggregate_rankings js reg
        = Inr (sort_key average_rank (map (entry_of reg js) (map fst mp)))"
    by (simp add: calculate_aggregate_rankings_def mp(1) aggregate_entries_result f e)
  moreover have "set (map fst mp) = {m. recorded_positions reg js m \<noteq> []}"
    using mp(3,4) by (auto simp: keys_recorded_def)
  ultimately show ?thesis using mp(2) by blast
qed

lemma model_entry_of: "model (entry_of reg js m) = m"
  by (simp add: entry_of_def)

lemma recorded_positions_mset:
  assumes "mset js' = mset js"
  shows "mset (recorded_positions reg js' m) = mset (recorded_positions reg js m)"
proof -
  let ?f = "\<lambda>j. mset (positions_from reg m 1 (parsed_labels (ranking j)))"
  have "mset (recorded_positions reg xs m) = sum_mset (image_mset ?f (mset xs))" for xs
    by (induction xs) (simp_all add: recorded_positions_def)
  with assms show ?thesis by simp
qed

lemma entry_of_permuted:
  assumes "mset js' = mset js"
  shows "entry_of reg js' m = entry_of reg js m"
proof -
  let ?p = "recorded_positions reg js m" and ?p' = "recorded_positions reg js' m"
  have m: "mset ?p' = mset ?p" using assms by (rule recorded_positions_mset)
  then have "length ?p' = length ?p" by (rule mset_eq_length)
  moreover have "sum_list ?p' = sum_list ?p"
    using m by (metis sum_mset_sum_list)
  ultimately show ?thesis by (simp add: entry_of_def rounded_mean_def)
qed

lemma length_concat_singletons:
  "(\<And>x. x \<in> set xs \<Longrightarrow> length (f x) \<le> 1) \<Longrightarrow>
     length (concat (map f xs)) = length (filter (\<lambda>x. f x \<noteq> []) xs)"
proof (induction xs)
  case Nil
  then show ?case by simp
next
  case (Cons x xs)
  then have "length (f x) \<le> 1" by simp
  then have "length (f x) = (if f x \<noteq> [] then 1 else 0)"
    by (cases "f x") auto
  with Cons show ?case by simp
qed

lemma recorded_once_count:
  assumes "\<And>j. j \<in> set js \<Longrightarrow> length (positions_from reg m 1 (parsed_labels (ranking j))) \<le> 1"
  shows "length (recorded_positions reg js m) = judges_ranking_model reg js m"
  unfolding recorded_positions_def judges_ranking_model_def
  using assms by (rule length_concat_singletons)

lemmas float_eval = nearest_double_def round_half_even_div_def bit_length.simps

lemma round_div_eval:
  "double_value (py_round2 (nearest_double 1 1)) = 1"
  "double_value (py_round2 (nearest_double 2 1)) = 2"
  "double_value (py_round2 (nearest_double 3 1)) = 3"
  "double_value (py_round2 (nearest_double 3 2)) = 3 / 2"
  by (simp_all add: float_eval)

lemma rounded_mean_eval:
  "rounded_mean [1] = 1" "rounded_mean [2] = 2" "rounded_mean [3] = 3"
  "rounded_mean [1, 2] = 3 / 2" "rounded_mean [2, 1] = 3 / 2"
proof -
  have l1: "length [x :: nat] = 1" and l2: "length [x, y] = 2" for x y by simp_all
  have s: "sum_list [1 :: nat] = 1" "sum_list [2 :: nat] = 2" "sum_list [3 :: nat] = 3"
    "sum_list [1, 2 :: nat] = 3" "sum_list [2, 1 :: nat] = 3"
    by simp_all
  show "rounded_mean [1] = 1" "rounded_mean [2] = 2" "rounded_mean [3] = 3"
    "rounded_mean [1, 2] = 3 / 2" "rounded_mean [2, 1] = 3 / 2"
    unfolding rounded_mean_def l1 l2 s by (rule round_div_eval)+
qed

lemmas rounded_mean_eval_Suc =
  rounded_mean_eval [unfolded numeral_2_eq_2 numeral_3_eq_3 One_nat_def]

lemmas aggregate_eval =
  calculate_aggregate_rankings_def record_position_def aggregate_entries_result
  rounded_mean_eval_Suc

lemmas positions_eval =
  recorded_positions_def judges_ranking_model_def positions_from_def parsed_labels_def

text \<open>
  Claim C3 (amended). For every list of judge rankings and every label registry,
  \<open>calculate_aggregate_rankings\<close> returns (it does not raise) one entry per model for
  which at least one 1-based position was recorded; labels absent from the registry
  record nothing and a model no judge mentions has no entry. The \<open>average_rank\<close> of an
  entry is \<open>round(sum / len, 2)\<close> of the positions recorded for its model, its
  \<open>rankings_count\<close> is the number of those recorded positions (one per mention in a
  parsed sequence), which is the number of judges who ranked the model whenever no judge
  mentions the model more than once, and the entries are sorted by ascending
  \<open>average_rank\<close>.
\<close>

theorem aggregate_rankings_entries:
  "\<exists>out. calculate_aggregate_rankings js reg = Inr out
     \<and> distinct (map model out)
     \<and> set (map model out) = {m. recorded_positions reg js m \<noteq> []}
     \<and> (\<forall>e \<in> set out.
           average_rank e = rounded_mean (recorded_positions reg js (model e))
         \<and> rankings_count e = length (recorded_positions reg js (model e))
         \<and> ((\<forall>j \<in> set js.
                 length (positions_from reg (model e) 1 (parsed_labels (ranking j))) \<le> 1)
              \<longrightarrow> rankings_count e = judges_ranking_model reg js (model e)))
     \<and> sorted (map average_rank out)"
proof -
  obtain ks where ks: "distinct ks" "set ks = {m. recorded_positions reg js m \<noteq> []}"
      "calculate_aggregate_rankings js reg = Inr (sort_key average_rank (map (entry_of reg js) ks))"
    using aggregate_characterisation by blast
  let ?out = "sort_key average_rank (map (entry_of reg js) ks)"
  have m: "mset (map model ?out) = mset ks"
    by (simp add: multiset.map_comp comp_def model_entry_of)
  have 1: "distinct (map model ?out)"
    using ks(1) m by (metis mset_eq_imp_distinct_iff)
  have 2: "set (map model ?out) = {m. recorded_positions reg js m \<noteq> []}"
    using m ks(2) by (metis set_mset_mset)
  have 3: "average_rank e = rounded_mean (recorded_positions reg js (model e))
         \<and> rankings_count e = length (recorded_positions reg js (model e))
         \<and> ((\<forall>j \<in> set js.
                 length (positions_from reg (model e) 1 (parsed_labels (ranking j))) \<le> 1)
              \<longrightarrow> rankings_count e = judges_ranking_model reg js (model e))"
    if "e \<in> set ?out" for e
  proof -
    from that obtain k where e: "e = entry_of reg js k" by auto
    show ?thesis
      unfolding e using recorded_once_count [of js reg k]
      by (simp add: entry_of_def)
  qed
  have 4: "sorted (map average_rank ?out)" by (rule sorted_sort_key)
  show ?thesis using ks(3) 1 2 3 4 by blast
qed

theorem aggregate_rankings_entries_witness:
  "\<exists>out. calculate_aggregate_rankings
            [\<lparr>model = ''judge-1'',
              ranking = ''FINAL RANKING:\<newline>1. Response B\<newline>2. Response A'',
              parsed_ranking = [''Response B'', ''Response A'']\<rparr>]
            [''Response A'' \<mapsto> ''m1'', ''Response B'' \<mapsto> ''m2''] = Inr out
     \<and> map model out = [''m2'', ''m1'']
     \<and> map rankings_count out = [1, 1]
     \<and> judges_ranking_model [''Response A'' \<mapsto> ''m1'', ''Response B'' \<mapsto> ''m2'']
            [\<lparr>model = ''judge-1'',
              ranking = ''FINAL RANKING:\<newline>1. Response B\<newline>2. Response A'',
              parsed_ranking = [''Response B'', ''Response A'']\<rparr>] ''m2'' = 1"
proof -
  let ?js = "[\<lparr>model = ''judge-1'',
              ranking = ''FINAL RANKING:\<newline>1. Response B\<newline>2. Response A'',
              parsed_ranking = [''Response B'', ''Response A'']\<rparr>]"
  let ?reg = "[''Response A'' \<mapsto> ''m1'', ''Response B'' \<mapsto> ''m2'']"
  have p: "parse_ranking_from_text ''FINAL RANKING:\<newline>1. Response B\<newline>2. Response A''
           = Inr [''Response B'', ''Response A'']"
    by (simp add: parser_eval)
  have ev: "calculate_aggregate_rankings ?js ?reg =
      Inr [\<lparr>model = ''m2'', average_rank = 1, rankings_count = 1\<rparr>,
           \<lparr>model = ''m1'', average_rank = 2, rankings_count = 1\<rparr>]"
    by (simp add: aggregate_eval p del: aggregate_entries.simps)
  have once: "\<forall>j \<in> set ?js. length (positions_from ?reg ''m2'' 1 (parsed_labels (ranking j))) \<le> 1"
    by (simp add: positions_eval p)
  from aggregate_rankings_entries [of ?js ?reg] obtain out where
      out: "calculate_aggregate_rankings ?js ?reg = Inr out"
      and all: "\<forall>e \<in> set out.
           average_rank e = rounded_mean (recorded_positions ?reg ?js (model e))
         \<and> rankings_count e = length (recorded_positions ?reg ?js (model e))
         \<and> ((\<forall>j \<in> set ?js.
                 length (positions_from ?reg (model e) 1 (parsed_labels (ranking j))) \<le> 1)
              \<longrightarrow> rankings_count e = judges_ranking_model ?reg ?js (model e))"
    by blast
  from out ev have o: "out = [\<lparr>model = ''m2'', average_rank = 1, rankings_count = 1\<rparr>,
           \<lparr>model = ''m1'', average_rank = 2, rankings_count = 1\<rparr>]"
    by simp
  then have "\<lparr>model = ''m2'', average_rank = 1, rankings_count = 1\<rparr> \<in> set out" by simp
  with all once have "judges_ranking_model ?reg ?js ''m2'' = 1" by fastforce
  with out o show ?thesis by simp
qed

text \<open>
  The claim as stated fails where one judge mentions a label twice (the fallback of the
  parser collects every occurrence, without removing repetitions): one judge, two
  recorded positions, \<open>rankings_count = 2\<close>.
\<close>

theorem rankings_count_counterexample:
  "calculate_aggregate_rankings
     [\<lparr>model = ''judge-1'', ranking = ''Response A is good. Response A wins.'',
       parsed_ranking = [''Response A'', ''Response A'']\<rparr>]
     [''Response A'' \<mapsto> ''m1'']
   = Inr [\<lparr>model = ''m1'', average_rank = 3 / 2, rankings_count = 2\<rparr>]
   \<and> judges_ranking_model [''Response A'' \<mapsto> ''m1'']
       [\<lparr>model = ''judge-1'', ranking = ''Response A is good. Response A wins.'',
         parsed_ranking = [''Response A'', ''Response A'']\<rparr>] ''m1'' = 1"
proof -
  have p: "parse_ranking_from_text ''Response A is good. Response A wins.''
           = Inr [''Response A'', ''Response A'']"
    by (simp add: parser_eval)
  show ?thesis
    by (simp add: aggregate_eval positions_eval p del: aggregate_entries.simps)
qed

text \<open>
  Claim C8. Permuting the list of judge rankings leaves the set of aggregate entries
  unchanged: the same models, each with the same rounded \<open>average_rank\<close> and the same
  \<open>rankings_count\<close>.
\<close>

theorem aggregate_rankings_permuted:
  assumes "mset js' = mset js"
  shows "\<exists>out out'. calculate_aggregate_rankings js reg = Inr out
           \<and> calculate_aggregate_rankings js' reg = Inr out'
           \<and> set out' = set out"
proof -
  obtain ks where ks: "set ks = {m. recorded_positions reg js m \<noteq> []}"
      "calculate_aggregate_rankings js reg = Inr (sort_key average_rank (map (entry_of reg js) ks))"
    using aggregate_characterisation by blast
  obtain ks' where ks': "set ks' = {m. recorded_positions reg js' m \<noteq> []}"
      "calculate_aggregate_rankings js' reg = Inr (sort_key average_rank (map (entry_of reg js') ks'))"
    using aggregate_characterisation by blast
  have "recorded_positions reg js' m \<noteq> [] \<longleftrightarrow> recorded_positions reg js m \<noteq> []" for m
    using recorded_positions_mset [OF assms, of reg m] by (metis mset_zero_iff)
  with ks(1) ks'(1) have "set ks' = set ks" by simp
  moreover have "entry_of reg js' = entry_of reg js"
    using entry_of_permuted [OF assms] by (intro ext)
  ultimately have "set (sort_key average_rank (map (entry_of reg js') ks'))
      = set (sort_key average_rank (map (entry_of reg js) ks))"
    by simp
  with ks(2) ks'(2) show ?thesis by blast
qed

theorem aggregate_rankings_permuted_witness:
  "\<exists>out out'.
     calculate_aggregate_rankings
       [\<lparr>model = ''judge-1'', ranking = ''FINAL RANKING:\<newline>1. Response B\<newline>2. Response A'',
         parsed_ranking = [''Response B'', ''Response A'']\<rparr>,
        \<lparr>model = ''judge-2'', ranking = ''Response A beats Response B'',
         parsed_ranking = [''Response A'', ''Response B'']\<rparr>]
       [''Response A'' \<mapsto> ''m1'', ''Response B'' \<mapsto> ''m2''] = Inr out
   \<and> calculate_aggregate_rankings
       [\<lparr>model = ''judge-2'', ranking = ''Response A beats Response B'',
         parsed_ranking = [''Response A'', ''Response B'']\<rparr>,
        \<lparr>model = ''judge-1'', ranking = ''FINAL RANKING:\<newline>1. Response B\<newline>2. Response A'',
         parsed_ranking = [''Response B'', ''Response A'']\<rparr>]
       [''Response A'' \<mapsto> ''m1'', ''Response B'' \<mapsto> ''m2''] = Inr out'
   \<and> set out' = set out"
  by (rule aggregate_rankings_permuted) simp

section \<open>The three-answer scenario\<close>

lemma make_labels_3: "make_labels 3 = ''ABC''"
  by code_simp

lemma registry_3:
  "make_label_to_model (make_labels 3)
     [\<lparr>model = mA, response = rA\<rparr>, \<lparr>model = mB, response = rB\<rparr>, \<lparr>model = mC, response = rC\<rparr>]
   = [''Response A'' \<mapsto> mA, ''Response B'' \<mapsto> mB, ''Response C'' \<mapsto> mC]"
  by (simp add: make_labels_3 make_label_to_model_def)

lemma parse_unmarked:
  "\<not> sublist MARKER t \<Longrightarrow> parse_ranking_from_text t = Inr (findall match_response t)"
  by (simp add: parse_ranking_from_text_def str_in_iff_sublist)

lemma parse_example_ranking:
  "parse_ranking_from_text ''FINAL RANKING:\<newline>1. Response C\<newline>2. Response A\<newline>3. Response B''
   = Inr [''Response C'', ''Response A'', ''Response B'']"
  by (simp add: parser_eval)

text \<open>
  Claim C5 (amended). Three stage-1 answers of distinct models are labelled A, B, C in
  that order. The first judge answers \<open>FINAL RANKING:\<close> followed by the numbered lines
  \<open>1. Response C\<close>, \<open>2. Response A\<close>, \<open>3. Response B\<close>; the second judge answers free text
  without the marker whose only labels are \<open>Response A\<close> and then \<open>Response C\<close>. The models
  behind A and C both have the recorded positions 2, 1 and 1, 2, so both have mean 1.5 and
  count 2; the sort is stable, so they keep the order of first observation, and C was
  observed first. The aggregate ranking is: the model behind C (mean 1.5, count 2), the
  model behind A (mean 1.5, count 2), the model behind B (mean 3, count 1).
\<close>

theorem scenario_aggregate:
  assumes "distinct [mA, mB, mC]"
    and "\<not> sublist MARKER t2"
    and "findall match_response t2 = [''Response A'', ''Response C'']"
  shows "calculate_aggregate_rankings
           [\<lparr>model = judge1,
             ranking = ''FINAL RANKING:\<newline>1. Response C\<newline>2. Response A\<newline>3. Response B'',
             parsed_ranking = p1\<rparr>,
            \<lparr>model = judge2, ranking = t2, parsed_ranking = p2\<rparr>]
           (make_label_to_model (make_labels 3)
              [\<lparr>model = mA, response = rA\<rparr>, \<lparr>model = mB, response = rB\<rparr>,
               \<lparr>model = mC, response = rC\<rparr>])
         = Inr [\<lparr>model = mC, average_rank = 3 / 2, rankings_count = 2\<rparr>,
                \<lparr>model = mA, average_rank = 3 / 2, rankings_count = 2\<rparr>,
                \<lparr>model = mB, average_rank = 3, rankings_count = 1\<rparr>]"
proof -
  have p2: "parse_ranking_from_text t2 = Inr [''Response A'', ''Response C'']"
    using assms(2,3) by (simp add: parse_unmarked)
  from assms(1) have ne: "mA \<noteq> mB" "mA \<noteq> mC" "mB \<noteq> mC" "mB \<noteq> mA" "mC \<noteq> mA" "mC \<noteq> mB"
    by auto
  show ?thesis
    unfolding registry_3
    by (simp add: aggregate_eval parse_example_ranking p2 ne del: aggregate_entries.simps)
qed

theorem scenario_aggregate_witness:
  "calculate_aggregate_rankings
     [\<lparr>model = ''judge-1'',
       ranking = ''FINAL RANKING:\<newline>1. Response C\<newline>2. Response A\<newline>3. Response B'',
       parsed_ranking = []\<rparr>,
      \<lparr>model = ''judge-2'', ranking = ''Response A is best, then Response C.'',
       parsed_ranking = []\<rparr>]
     (make_label_to_model (make_labels 3)
        [\<lparr>model = ''m1'', response = ''r1''\<rparr>, \<lparr>model = ''m2'', response = ''r2''\<rparr>,
         \<lparr>model = ''m3'', response = ''r3''\<rparr>])
   = Inr [\<lparr>model = ''m3'', average_rank = 3 / 2, rankings_count = 2\<rparr>,
          \<lparr>model = ''m1'', average_rank = 3 / 2, rankings_count = 2\<rparr>,
          \<lparr>model = ''m2'', average_rank = 3, rankings_count = 1\<rparr>]"
proof -
  have h1: "distinct [''m1'', ''m2'', ''m3'']" by simp
  have h2: "\<not> sublist MARKER ''Response A is best, then Response C.''"
    by (simp add: MARKER_def sublist_Cons_right)
  have h3: "findall match_response ''Response A is best, then Response C.''
            = [''Response A'', ''Response C'']"
    by (simp add: match_response_def is_AZ_def)
  show ?thesis
    by (rule scenario_aggregate [OF h1 h2 h3])
qed

text \<open>
  The scenario as originally stated puts the model behind label A first. In this instance
  of the scenario the first entry is the model behind label C.
\<close>

theorem scenario_first_place_counterexample:
  "calculate_aggregate_rankings
     [\<lparr>model = ''openai/gpt-oss-120b'',
       ranking = ''FINAL RANKING:\<newline>1. Response C\<newline>2. Response A\<newline>3. Response B'',
       parsed_ranking = [''Response C'', ''Response A'', ''Response B'']\<rparr>,
      \<lparr>model = ''llama-3.3-70b-versatile'',
       ranking = ''I prefer Response A, with Response C as runner-up.'',
       parsed_ranking = [''Response A'', ''Response C'']\<rparr>]
     (make_label_to_model (make_labels 3)
        [\<lparr>model = ''model-a'', response = ''first answer''\<rparr>,
         \<lparr>model = ''model-b'', response = ''second answer''\<rparr>,
         \<lparr>model = ''model-c'', response = ''third answer''\<rparr>])
   = Inr [\<lparr>model = ''model-c'', average_rank = 3 / 2, rankings_count = 2\<rparr>,
          \<lparr>model = ''model-a'', average_rank = 3 / 2, rankings_count = 2\<rparr>,
          \<lparr>model = ''model-b'', average_rank = 3, rankings_count = 1\<rparr>]"
  unfolding registry_3
  by (simp add: aggregate_eval parser_eval del: aggregate_entries.simps)

section \<open>Properties of the label assignment\<close>

lemma parse_judges_total: "\<exists>js. parse_judges rs = Inr js"
proof (induction rs rule: parse_judges.induct)
  case 1
  show ?case by simp
next
  case (2 m rest)
  then show ?case by simp
next
  case (3 m full_text rest)
  from parse_total obtain ls where "parse_ranking_from_text full_text = Inr ls" by blast
  with 3 show ?case by auto
qed

lemma stage2_returns:
  "\<exists>js tr'. stage2_collect_rankings ivk q s1 h tr
      = (Inr (js, make_label_to_model (make_labels (length s1)) s1), tr')"
proof -
  obtain rs tr1 where q: "query_models_parallel ivk COUNCIL_MODELS (stage2_messages q s1 h) tr = (rs, tr1)"
    by (cases "query_models_parallel ivk COUNCIL_MODELS (stage2_messages q s1 h) tr")
  from parse_judges_total obtain js where "parse_judges rs = Inr js" by blast
  with q show ?thesis
    by (simp add: stage2_collect_rankings_def Let_def)
qed

lemma char_of_label_inj:
  assumes "i < 191" "j < 191" "(char_of (65 + i :: nat) :: char) = char_of (65 + j :: nat)"
  shows "i = j"
proof -
  from assms(3) have "(of_char (char_of (65 + i :: nat) :: char) :: nat)
                      = of_char (char_of (65 + j :: nat) :: char)"
    by (rule arg_cong)
  then have "(65 + i) mod 256 = (65 + j) mod 256"
    by (simp only: of_char_of)
  with assms(1,2) show ?thesis by simp
qed

lemma make_labels_nth: "i < n \<Longrightarrow> make_labels n ! i = char_of (65 + i)"
  by (simp add: make_labels_def)

lemma length_make_labels: "length (make_labels n) = n"
  by (simp add: make_labels_def)

lemma distinct_make_labels: "n \<le> 191 \<Longrightarrow> distinct (make_labels n)"
  unfolding distinct_conv_nth length_make_labels
  using char_of_label_inj by (auto simp: make_labels_nth)

lemma registry_other:
  "k l \<notin> k ` fst ` set ps \<Longrightarrow>
   fold (\<lambda>(label, result) d. d(k label \<mapsto> v result)) ps d0 (k l) = d0 (k l)"
  by (induction ps arbitrary: d0) auto

lemma registry_lookup:
  "inj k \<Longrightarrow> distinct (map fst ps) \<Longrightarrow> (l, r) \<in> set ps \<Longrightarrow>
   fold (\<lambda>(label, result) d. d(k label \<mapsto> v result)) ps d0 (k l) = Some (v r)"
proof (induction ps arbitrary: d0)
  case Nil
  then show ?case by simp
next
  case (Cons p ps)
  let ?F = "\<lambda>(label, result) d. d(k label \<mapsto> v result)"
  show ?case
  proof (cases "p = (l, r)")
    case True
    with Cons.prems(2) have "l \<notin> fst ` set ps" by simp
    with Cons.prems(1) have "k l \<notin> k ` fst ` set ps" by (auto dest: injD)
    then have "fold ?F ps (?F p d0) (k l) = ?F p d0 (k l)"
      by (rule registry_other)
    moreover have "?F p d0 (k l) = Some (v r)" using True by simp
    moreover have "fold ?F (p # ps) d0 = fold ?F ps (?F p d0)"
      by (simp only: fold.simps comp_apply)
    ultimately show ?thesis by (simp only:)
  next
    case False
    with Cons.prems have "distinct (map fst ps)" "(l, r) \<in> set ps" by auto
    then show ?thesis using Cons.IH Cons.prems(1) by simp
  qed
qed

lemma inj_response_label: "inj (\<lambda>label. ''Response '' @ [label])"
  by (rule injI) simp

lemma label_to_model_nth:
  assumes "length s1 \<le> 191" "i < length s1"
  shows "make_label_to_model (make_labels (length s1)) s1 (''Response '' @ [char_of (65 + i)])
         = Some (model (s1 ! i))"
proof -
  let ?ps = "zip (make_labels (length s1)) s1"
  have d: "distinct (map fst ?ps)"
    using distinct_make_labels [OF assms(1)] by (simp add: length_make_labels)
  have "?ps ! i = (char_of (65 + i), s1 ! i)"
    using assms(2) by (simp add: length_make_labels make_labels_nth)
  moreover have "i < length ?ps" using assms(2) by (simp add: length_make_labels)
  ultimately have "(char_of (65 + i), s1 ! i) \<in> set ?ps"
    by (metis nth_mem)
  with inj_response_label d show ?thesis
    unfolding make_label_to_model_def by (rule registry_lookup)
qed

text \<open>
  Stage 2 has no limit on the number of answers: it returns normally for every list, and
  (within the alphabet of this development) the answer at index \<open>i\<close> gets the label
  \<open>chr(65 + i)\<close>, whatever \<open>i\<close> is.
\<close>

lemma stage2_label_assignment:
  assumes "length stage1_results \<le> 191"
  shows "\<exists>stage2_results reg tr'.
           stage2_collect_rankings ivk user_query stage1_results conversation_history tr
             = (Inr (stage2_results, reg), tr')
         \<and> (\<forall>i < length stage1_results.
               make_labels (length stage1_results) ! i = char_of (65 + i)
             \<and> reg (''Response '' @ [char_of (65 + i)]) = Some (model (stage1_results ! i)))"
proof -
  from stage2_returns obtain js tr' where
    "stage2_collect_rankings ivk user_query stage1_results conversation_history tr
      = (Inr (js, make_label_to_model (make_labels (length stage1_results)) stage1_results), tr')"
    by blast
  moreover have "make_labels (length stage1_results) ! i = char_of (65 + i)
      \<and> make_label_to_model (make_labels (length stage1_results)) stage1_results
            (''Response '' @ [char_of (65 + i)]) = Some (model (stage1_results ! i))"
    if "i < length stage1_results" for i
    using that assms label_to_model_nth make_labels_nth by blast
  ultimately show ?thesis by blast
qed




section \<open>Properties of the orchestrator\<close>

lemma gather_trace:
  "snd (gather ivk models messages tr)
   = tr @ map (\<lambda>m. \<lparr>call_model = m, call_messages = messages, call_max_tokens = 2048\<rparr>) models"
  by (induction models arbitrary: tr) (simp_all add: query_model_def Let_def case_prod_beta)

lemma stage1_trace:
  "snd (stage1_collect_responses ivk user_query h tr)
   = tr @ map (\<lambda>m. \<lparr>call_model = m, call_messages = stage1_messages user_query h,
                       call_max_tokens = 2048\<rparr>) COUNCIL_MODELS"
  using gather_trace [of ivk COUNCIL_MODELS "stage1_messages user_query h" tr]
  by (simp add: stage1_collect_responses_def query_models_parallel_def case_prod_beta)

text \<open>
  Claim C1. For every query and conversation context: if stage 1 yields no successful
  answer, \<open>run_full_council\<close> returns the terminal error result (empty stage-1 and stage-2
  collections, a synthesis message tagged \<open>error\<close>, empty metadata), and the invocations
  it has made are exactly the stage-1 requests, one per council model: no stage-2 and no
  stage-3 invocation takes place.
\<close>

theorem empty_stage1_terminal:
  assumes "fst (stage1_collect_responses ivk user_query
                  (if conversation_messages \<noteq> []
                   then Some (format_conversation_history conversation_messages) else None) tr) = []"
  shows "run_full_council ivk user_query conversation_messages tr
         = (Inr ([], [],
                 \<lparr>model = ''error'',
                   response = ''All models failed to respond. Please try again.''\<rparr>,
                 None),
            tr @ map (\<lambda>m. \<lparr>call_model = m,
                               call_messages =
                                 stage1_messages user_query
                                   (if conversation_messages \<noteq> []
                                    then Some (format_conversation_history conversation_messages)
                                    else None),
                               call_max_tokens = 2048\<rparr>) COUNCIL_MODELS)"
proof -
  let ?h = "if conversation_messages \<noteq> []
            then Some (format_conversation_history conversation_messages) else None"
  obtain s1 tr1 where s: "stage1_collect_responses ivk user_query ?h tr = (s1, tr1)"
    by (cases "stage1_collect_responses ivk user_query ?h tr")
  with assms have e: "s1 = []" by simp
  from s stage1_trace [of ivk user_query ?h tr]
  have t: "tr1 = tr @ map (\<lambda>m. \<lparr>call_model = m, call_messages = stage1_messages user_query ?h,
                       call_max_tokens = 2048\<rparr>) COUNCIL_MODELS"
    by simp
  show ?thesis
    unfolding run_full_council_def Let_def s e t by simp
qed

theorem empty_stage1_terminal_witness:
  "run_full_council (\<lambda>c. None) ''hi'' [] []
   = (Inr ([], [],
           \<lparr>model = ''error'',
             response = ''All models failed to respond. Please try again.''\<rparr>,
           None),
      map (\<lambda>m. \<lparr>call_model = m, call_messages = stage1_messages ''hi'' None,
                  call_max_tokens = 2048\<rparr>) COUNCIL_MODELS)"
proof -
  have "fst (stage1_collect_responses (\<lambda>c. None) ''hi''
               (if ([] :: conv_message list) \<noteq> []
                then Some (format_conversation_history []) else None) []) = []"
    by (simp add: stage1_collect_responses_def query_models_parallel_def query_model_def
        COUNCIL_MODELS_def dict_of_def)
  from empty_stage1_terminal [OF this] show ?thesis by simp
qed

lemma aggregate_total: "\<exists>agg. calculate_aggregate_rankings js reg = Inr agg"
  using aggregate_characterisation [of reg js] by blast

lemma stage3_result:
  "fst (stage3_synthesize_final ivk q s1 s2 h tr)
   = (case ivk \<lparr>call_model = CHAIRMAN_MODEL, call_messages = stage3_messages q s1 s2 h,
                  call_max_tokens = 2048\<rparr> of
        None \<Rightarrow> \<lparr>model = CHAIRMAN_MODEL,
                  response = ''Error: Unable to generate final synthesis.''\<rparr>
      | Some c \<Rightarrow> \<lparr>model = CHAIRMAN_MODEL, response = c\<rparr>)"
  by (simp add: stage3_synthesize_final_def query_model_def Let_def split: option.splits)

lemma run_full_council_cases:
  fixes ivk q msgs tr
  defines "h \<equiv> (if msgs \<noteq> [] then Some (format_conversation_history msgs) else None)"
  defines "s1 \<equiv> fst (stage1_collect_responses ivk q h tr)"
  shows "(s1 = [] \<and> fst (run_full_council ivk q msgs tr)
            = Inr ([], [], \<lparr>model = ''error'',
                             response = ''All models failed to respond. Please try again.''\<rparr>,
                   None))
       \<or> (s1 \<noteq> [] \<and> (\<exists>s2 md. fst (run_full_council ivk q msgs tr)
            = Inr (s1, s2, fst (stage3_synthesize_final ivk q s1 s2 h
                                  (snd (stage2_collect_rankings ivk q s1 h
                                         (snd (stage1_collect_responses ivk q h tr))))),
                   Some md)))"
proof -
  obtain r1 tr1 where a: "stage1_collect_responses ivk q h tr = (r1, tr1)"
    by (cases "stage1_collect_responses ivk q h tr")
  then have r1: "s1 = r1" by (simp add: s1_def)
  from stage2_returns [of ivk q r1 h tr1] obtain js tr2 where
    b: "stage2_collect_rankings ivk q r1 h tr1
        = (Inr (js, make_label_to_model (make_labels (length r1)) r1), tr2)"
    by blast
  from aggregate_total obtain agg where
    c: "calculate_aggregate_rankings js (make_label_to_model (make_labels (length r1)) r1) = Inr agg"
    by blast
  obtain x tr3 where d: "stage3_synthesize_final ivk q r1 js h tr2 = (x, tr3)"
    by (cases "stage3_synthesize_final ivk q r1 js h tr2")
  show ?thesis
  proof (cases "r1 = []")
    case True
    then show ?thesis
      using a unfolding r1 run_full_council_def Let_def h_def [symmetric] by simp
  next
    case False
    then have "fst (run_full_council ivk q msgs tr)
        = Inr (r1, js, x, Some \<lparr>label_to_model = make_label_to_model (make_labels (length r1)) r1,
                                 aggregate_rankings = agg, had_context = (h \<noteq> None)\<rparr>)"
      unfolding run_full_council_def Let_def h_def [symmetric] by (simp add: a b c d)
    with False show ?thesis unfolding r1 by (simp add: a b d)
  qed
qed

text \<open>
  Claim C7. When the invocation of the chairman in stage 3 fails,
  \<open>stage3_synthesize_final\<close> returns a synthesis result for the chairman model that carries
  the fixed text \<open>Error: Unable to generate final synthesis.\<close>. The run as a whole always
  returns a result \<open>(r1, r2, r3, md)\<close> and never raises; when stage 1 produced answers and
  the chairman invocation of the run fails, \<open>r1\<close> is the stage-1 result, \<open>r3\<close> is that
  same fixed synthesis result and the metadata are present.
\<close>

theorem synthesis_failure_recovered:
  "(ivk \<lparr>call_model = CHAIRMAN_MODEL,
          call_messages = stage3_messages user_query stage1_results stage2_results history,
          call_max_tokens = 2048\<rparr> = None
    \<longrightarrow> fst (stage3_synthesize_final ivk user_query stage1_results stage2_results history tr)
        = \<lparr>model = CHAIRMAN_MODEL, response = ''Error: Unable to generate final synthesis.''\<rparr>)
   \<and> (\<exists>r1 r2 r3 md.
         fst (run_full_council ivk user_query conversation_messages tr) = Inr (r1, r2, r3, md)
       \<and> (r1 \<noteq> []
            \<and> ivk \<lparr>call_model = CHAIRMAN_MODEL,
                    call_messages =
                      stage3_messages user_query r1 r2
                        (if conversation_messages \<noteq> []
                         then Some (format_conversation_history conversation_messages)
                         else None),
                    call_max_tokens = 2048\<rparr> = None
          \<longrightarrow> r1 = fst (stage1_collect_responses ivk user_query
                         (if conversation_messages \<noteq> []
                          then Some (format_conversation_history conversation_messages)
                          else None) tr)
            \<and> r3 = \<lparr>model = CHAIRMAN_MODEL,
                      response = ''Error: Unable to generate final synthesis.''\<rparr>
            \<and> md \<noteq> None))"
proof (rule conjI)
  show "ivk \<lparr>call_model = CHAIRMAN_MODEL,
          call_messages = stage3_messages user_query stage1_results stage2_results history,
          call_max_tokens = 2048\<rparr> = None
    \<longrightarrow> fst (stage3_synthesize_final ivk user_query stage1_results stage2_results history tr)
        = \<lparr>model = CHAIRMAN_MODEL, response = ''Error: Unable to generate final synthesis.''\<rparr>"
    by (simp add: stage3_result)
next
  let ?h = "if conversation_messages \<noteq> []
            then Some (format_conversation_history conversation_messages) else None"
  let ?s1 = "fst (stage1_collect_responses ivk user_query ?h tr)"
  from run_full_council_cases [of ivk user_query conversation_messages tr]
  consider (empty) "?s1 = []"
      "fst (run_full_council ivk user_query conversation_messages tr)
            = Inr ([], [], \<lparr>model = ''error'',
                             response = ''All models failed to respond. Please try again.''\<rparr>,
                   None)"
    | (full) s2 md tr2 where "?s1 \<noteq> []"
      "fst (run_full_council ivk user_query conversation_messages tr)
            = Inr (?s1, s2, fst (stage3_synthesize_final ivk user_query ?s1 s2 ?h tr2), Some md)"
    by blast
  then show "\<exists>r1 r2 r3 md.
         fst (run_full_council ivk user_query conversation_messages tr) = Inr (r1, r2, r3, md)
       \<and> (r1 \<noteq> []
            \<and> ivk \<lparr>call_model = CHAIRMAN_MODEL,
                    call_messages = stage3_messages user_query r1 r2 ?h,
                    call_max_tokens = 2048\<rparr> = None
          \<longrightarrow> r1 = ?s1
            \<and> r3 = \<lparr>model = CHAIRMAN_MODEL,
                      response = ''Error: Unable to generate final synthesis.''\<rparr>
            \<and> md \<noteq> None)"
  proof cases
    case empty
    then show ?thesis by simp
  next
    case full
    show ?thesis
      apply (rule exI [of _ ?s1], rule exI [of _ s2])
      apply (rule exI [of _ "fst (stage3_synthesize_final ivk user_query ?s1 s2 ?h tr2)"])
      apply (rule exI [of _ "Some md"])
      using full by (simp add: stage3_result)
  qed
qed

theorem synthesis_failure_recovered_witness:
  "fst (stage3_synthesize_final
          (\<lambda>c. if content (hd (call_messages c))
                    = ''You are the Chairman synthesizing responses from multiple AI models.''
                 then None else Some ''FINAL RANKING:\<newline>1. Response A'')
          ''hi'' [] [] None [])
   = \<lparr>model = CHAIRMAN_MODEL, response = ''Error: Unable to generate final synthesis.''\<rparr>
   \<and> (\<exists>r1 r2 md.
         fst (run_full_council
                (\<lambda>c. if content (hd (call_messages c))
                          = ''You are the Chairman synthesizing responses from multiple AI models.''
                       then None else Some ''FINAL RANKING:\<newline>1. Response A'')
                ''hi'' [] [])
         = Inr (r1, r2,
                \<lparr>model = CHAIRMAN_MODEL,
                  response = ''Error: Unable to generate final synthesis.''\<rparr>,
                Some md)
       \<and> r1 \<noteq> [])"
proof -
  define ivk :: invoker where
    "ivk = (\<lambda>c. if content (hd (call_messages c))
                    = ''You are the Chairman synthesizing responses from multiple AI models.''
                 then None else Some ''FINAL RANKING:\<newline>1. Response A'')"
  let ?sent = "\<lparr>model = CHAIRMAN_MODEL,
                 response = ''Error: Unable to generate final synthesis.''\<rparr>"
  have fails: "ivk \<lparr>call_model = CHAIRMAN_MODEL,
                    call_messages = stage3_messages ''hi'' s1 s2 h,
                    call_max_tokens = 2048\<rparr> = None" for s1 s2 h
    by (simp add: ivk_def stage3_messages_def)
  have ne: "fst (stage1_collect_responses ivk ''hi'' None []) \<noteq> []"
    by (simp add: stage1_collect_responses_def query_models_parallel_def query_model_def
        COUNCIL_MODELS_def dict_of_def ivk_def stage1_messages_def stage1_system_prompt_def)
  note inst = synthesis_failure_recovered [of ivk "''hi''" "[]" "[]" None "[]" "[]"]
  from conjunct1 [OF inst] have a: "fst (stage3_synthesize_final ivk ''hi'' [] [] None []) = ?sent"
    by (rule mp) (rule fails)
  from conjunct2 [OF inst] obtain r1 r2 r3 md where
    eq: "fst (run_full_council ivk ''hi'' [] []) = Inr (r1, r2, r3, md)"
    and imp: "r1 \<noteq> [] \<and> ivk \<lparr>call_model = CHAIRMAN_MODEL,
                    call_messages = stage3_messages ''hi'' r1 r2
                        (if ([] :: conv_message list) \<noteq> []
                         then Some (format_conversation_history []) else None),
                    call_max_tokens = 2048\<rparr> = None
          \<longrightarrow> r1 = fst (stage1_collect_responses ivk ''hi''
                         (if ([] :: conv_message list) \<noteq> []
                          then Some (format_conversation_history []) else None) [])
            \<and> r3 = ?sent \<and> md \<noteq> None"
    by (elim exE conjE) (rule that)
  from run_full_council_cases [of ivk "''hi''" "[]" "[]"] ne eq
  have "r1 = fst (stage1_collect_responses ivk ''hi'' None [])"
    by auto
  with ne have "r1 \<noteq> []" by simp
  from this fails have "r1 \<noteq> [] \<and> ivk \<lparr>call_model = CHAIRMAN_MODEL,
                    call_messages = stage3_messages ''hi'' r1 r2
                        (if ([] :: conv_message list) \<noteq> []
                         then Some (format_conversation_history []) else None),
                    call_max_tokens = 2048\<rparr> = None"
    by (rule conjI)
  with imp have "r1 = fst (stage1_collect_responses ivk ''hi''
                         (if ([] :: conv_message list) \<noteq> []
                          then Some (format_conversation_history []) else None) [])
            \<and> r3 = ?sent \<and> md \<noteq> None"
    by (rule mp)
  then have "r3 = ?sent" "md \<noteq> None" by simp_all
  with eq \<open>r1 \<noteq> []\<close> have "\<exists>r1 r2 md. fst (run_full_council ivk ''hi'' [] [])
      = Inr (r1, r2, ?sent, Some md) \<and> r1 \<noteq> []"
    by auto
  with a show ?thesis unfolding ivk_def by (rule conjI)
qed

section \<open>Properties of the title generator\<close>

lemma strip_where_strips: "strips_to P s (strip_where P s)"
proof -
  let ?a = "takeWhile P s" and ?b = "dropWhile P s"
  let ?t = "rev (dropWhile P (rev ?b))" and ?suf = "rev (takeWhile P (rev ?b))"
  have b: "?b = ?t @ ?suf"
  proof -
    have "rev ?b = takeWhile P (rev ?b) @ dropWhile P (rev ?b)" by simp
    then have "rev (rev ?b) = rev (takeWhile P (rev ?b) @ dropWhile P (rev ?b))"
      by (rule arg_cong)
    then show ?thesis by (simp only: rev_rev_ident rev_append)
  qed
  have s: "s = ?a @ ?t @ ?suf"
    using b takeWhile_dropWhile_id [of P s] by simp
  have pa: "list_all P ?a" by (simp add: list_all_iff) (meson set_takeWhileD)
  have ps: "list_all P ?suf" by (simp add: list_all_iff) (meson set_takeWhileD)
  have ends: "\<not> P (hd ?t) \<and> \<not> P (last ?t)" if ne: "?t \<noteq> []"
  proof
    from ne have "dropWhile P (rev ?b) \<noteq> []" by simp
    then have "\<not> P (hd (dropWhile P (rev ?b)))" by (rule hd_dropWhile)
    then show "\<not> P (last ?t)" using ne by (simp add: last_rev)
    have bne: "?b \<noteq> []"
    proof
      assume "?b = []"
      then have "?t = []" by (simp only: rev.simps dropWhile.simps)
      with ne show False by (rule notE)
    qed
    from bne have "\<not> P (hd ?b)" by (rule hd_dropWhile)
    moreover from b ne have "hd ?b = hd ?t" by (metis hd_append2)
    ultimately show "\<not> P (hd ?t)" by simp
  qed
  show ?thesis
    unfolding strips_to_def strip_where_def
    using s pa ps ends by blast
qed

text \<open>
  Claim C10. When the invocation of the title model succeeds with content \<open>c\<close>, the title
  returned is never empty. Let \<open>t1\<close> be \<open>c\<close> without leading and trailing white space and
  \<open>t\<close> be \<open>t1\<close> without leading and trailing quote characters (double or single): the title
  is \<open>New Conversation\<close> when \<open>t\<close> is empty, the first 47 characters of \<open>t\<close> followed by
  three dots when \<open>t\<close> is longer than 50 characters, and \<open>t\<close> itself otherwise.
\<close>

theorem title_on_success:
  assumes "ivk \<lparr>call_model = ''groq/compound-mini'', call_messages = title_messages user_query,
                 call_max_tokens = 30\<rparr> = Some c"
  shows "fst (generate_conversation_title ivk user_query tr) \<noteq> []
       \<and> (\<exists>t1 t. strips_to is_space c t1
                \<and> strips_to (\<lambda>x. x = CHR 0x22 \<or> x = CHR 0x27) t1 t
                \<and> fst (generate_conversation_title ivk user_query tr)
                  = (if t = [] then ''New Conversation''
                     else if length t > 50 then take 47 t @ ''...'' else t))"
proof -
  let ?t1 = "py_strip c"
  let ?t = "py_strip_chars [CHR 0x22, CHR 0x27] ?t1"
  let ?r = "if ?t = [] then ''New Conversation''
            else if length ?t > 50 then take 47 ?t @ ''...'' else ?t"
  have r: "fst (generate_conversation_title ivk user_query tr) = ?r"
    using assms by (simp add: generate_conversation_title_def query_model_def Let_def)
  have ne: "?r \<noteq> []" by simp
  have a: "strips_to is_space c ?t1"
    unfolding py_strip_def by (rule strip_where_strips)
  have q: "(\<lambda>x. x \<in> set [CHR 0x22, CHR 0x27]) = (\<lambda>x. x = CHR 0x22 \<or> x = CHR 0x27)"
    by (simp add: fun_eq_iff)
  have b: "strips_to (\<lambda>x. x = CHR 0x22 \<or> x = CHR 0x27) ?t1 ?t"
    unfolding py_strip_chars_def q [symmetric] by (rule strip_where_strips)
  from r ne a b show ?thesis by (metis (no_types, lifting))
qed

theorem title_on_success_witness:
  "fst (generate_conversation_title (\<lambda>c. Some ''  \"Council of Models\"\<newline>'') ''What is a council?'' [])
     \<noteq> []
   \<and> (\<exists>t1 t. strips_to is_space ''  \"Council of Models\"\<newline>'' t1
            \<and> strips_to (\<lambda>x. x = CHR 0x22 \<or> x = CHR 0x27) t1 t
            \<and> fst (generate_conversation_title (\<lambda>c. Some ''  \"Council of Models\"\<newline>'')
                     ''What is a council?'' [])
              = (if t = [] then ''New Conversation''
                 else if length t > 50 then take 47 t @ ''...'' else t))"
  by (rule title_on_success) simp

section \<open>Batch mode and streaming mode\<close>

lemmas invoke_eval =
  query_models_parallel_def query_model_def COUNCIL_MODELS_def dict_of_def Let_def

lemma gather_result:
  "fst (gather ivk models messages tr)
   = map (\<lambda>m. ivk \<lparr>call_model = m, call_messages = messages, call_max_tokens = 2048\<rparr>) models"
  by (induction models arbitrary: tr) (simp_all add: query_model_def Let_def case_prod_beta)

lemma stage1_any_trace:
  "fst (stage1_collect_responses ivk q h tr) = fst (stage1_collect_responses ivk q h tr')"
  by (simp add: stage1_collect_responses_def query_models_parallel_def case_prod_beta gather_result)

lemma stage2_any_trace:
  "fst (stage2_collect_rankings ivk q s1 h tr) = fst (stage2_collect_rankings ivk q s1 h tr')"
  by (simp add: stage2_collect_rankings_def query_models_parallel_def case_prod_beta gather_result
      Let_def split: sum.splits)

lemma stage3_any_trace:
  "fst (stage3_synthesize_final ivk q s1 s2 h tr) = fst (stage3_synthesize_final ivk q s1 s2 h tr')"
  by (simp add: stage3_result)

text \<open>
  When stage 1 yields at least one answer, the streaming mode emits the payloads of the
  batch mode: the stage-1 answers, the stage-2 rankings with registry and aggregate
  ranking, and the stage-3 result are those \<open>run_full_council\<close> returns for the same
  invoker, query and previous messages.
\<close>

lemma streaming_payloads_agree:
  fixes ivk q messages tr
  defines "h \<equiv> (if butlast messages \<noteq> []
                 then Some (format_conversation_history (butlast messages)) else None)"
  assumes ne: "fst (stage1_collect_responses ivk q h tr) \<noteq> []"
  shows "\<exists>s1 s2 s3 md title_events.
           fst (run_full_council ivk q (butlast messages) tr) = Inr (s1, s2, s3, Some md)
         \<and> fst (event_generator ivk q messages tr)
           = [Stage1Start, Stage1Complete s1,
              Stage2Start, Stage2Complete s2 (label_to_model md) (aggregate_rankings md),
              Stage3Start, Stage3Complete s3] @ title_events @ [Complete]"
proof -
  define s1 where "s1 = fst (stage1_collect_responses ivk q h tr)"
  define reg where "reg = make_label_to_model (make_labels (length s1)) s1"
  from stage2_returns [of ivk q s1 h tr] obtain s2 where
    s2: "fst (stage2_collect_rankings ivk q s1 h tr) = Inr (s2, reg)"
    unfolding reg_def by auto
  from aggregate_total obtain agg where agg: "calculate_aggregate_rankings s2 reg = Inr agg"
    by blast
  define s3 where "s3 = fst (stage3_synthesize_final ivk q s1 s2 h tr)"
  have a1: "fst (stage1_collect_responses ivk q h t) = s1" for t
    unfolding s1_def by (rule stage1_any_trace)
  have a2: "fst (stage2_collect_rankings ivk q s1 h t) = Inr (s2, reg)" for t
    unfolding s2 [symmetric] by (rule stage2_any_trace)
  have a3: "fst (stage3_synthesize_final ivk q s1 s2 h t) = s3" for t
    unfolding s3_def by (rule stage3_any_trace)
  have n: "s1 \<noteq> []" using ne by (simp add: s1_def)
  have r: "fst (run_full_council ivk q (butlast messages) tr)
      = Inr (s1, s2, s3, Some \<lparr>label_to_model = reg, aggregate_rankings = agg,
                                 had_context = (h \<noteq> None)\<rparr>)"
    unfolding run_full_council_def Let_def h_def [symmetric]
    by (simp add: case_prod_beta a1 a2 a3 agg n)
  have e: "fst (event_generator ivk q messages tr)
      = [Stage1Start, Stage1Complete s1, Stage2Start, Stage2Complete s2 reg agg,
         Stage3Start, Stage3Complete s3]
        @ (if length messages = 0
           then [TitleComplete (fst (generate_conversation_title ivk q tr))] else [])
        @ [Complete]"
    unfolding event_generator_def Let_def h_def [symmetric]
    by (simp add: case_prod_beta a1 a2 a3 agg)
  from r e show ?thesis by force
qed

text \<open>
  Claim C4. The streaming mode should have the stage semantics of the batch mode, and in
  particular end with the same error outcome, without running stage 2 or stage 3, when
  stage 1 yields no answer. It does not: \<open>event_generator\<close> lacks the test for an empty
  stage-1 result that \<open>run_full_council\<close> has. With an invoker that fails on every request
  the batch mode returns the result tagged \<open>error\<close> after the four stage-1 requests, while
  the streaming mode goes on to send the four stage-2 requests and the chairman request
  and ends with a stage-3 result for the chairman model carrying the synthesis fallback
  text, followed by \<open>complete\<close>.
\<close>

theorem streaming_without_answers:
  "run_full_council (\<lambda>c. None) ''hi'' [] []
   = (Inr ([], [],
           \<lparr>model = ''error'',
             response = ''All models failed to respond. Please try again.''\<rparr>,
           None),
      map (\<lambda>m. \<lparr>call_model = m, call_messages = stage1_messages ''hi'' None,
                  call_max_tokens = 2048\<rparr>) COUNCIL_MODELS)
   \<and> event_generator (\<lambda>c. None) ''hi'' [] []
     = ([Stage1Start, Stage1Complete [],
         Stage2Start, Stage2Complete [] Map.empty [],
         Stage3Start,
         Stage3Complete \<lparr>model = CHAIRMAN_MODEL,
                          response = ''Error: Unable to generate final synthesis.''\<rparr>,
         TitleComplete ''hi...'', Complete],
        [\<lparr>call_model = ''groq/compound-mini'', call_messages = title_messages ''hi'',
          call_max_tokens = 30\<rparr>]
        @ map (\<lambda>m. \<lparr>call_model = m, call_messages = stage1_messages ''hi'' None,
                      call_max_tokens = 2048\<rparr>) COUNCIL_MODELS
        @ map (\<lambda>m. \<lparr>call_model = m, call_messages = stage2_messages ''hi'' [] None,
                      call_max_tokens = 2048\<rparr>) COUNCIL_MODELS
        @ [\<lparr>call_model = CHAIRMAN_MODEL, call_messages = stage3_messages ''hi'' [] [] None,
            call_max_tokens = 2048\<rparr>])"
proof
  show "run_full_council (\<lambda>c. None) ''hi'' [] []
   = (Inr ([], [],
           \<lparr>model = ''error'',
             response = ''All models failed to respond. Please try again.''\<rparr>,
           None),
      map (\<lambda>m. \<lparr>call_model = m, call_messages = stage1_messages ''hi'' None,
                  call_max_tokens = 2048\<rparr>) COUNCIL_MODELS)"
    by (simp add: run_full_council_def stage1_collect_responses_def invoke_eval)
  have title: "generate_conversation_title (\<lambda>c. None) ''hi'' []
      = (''hi...'', [\<lparr>call_model = ''groq/compound-mini'', call_messages = title_messages ''hi'',
          call_max_tokens = 30\<rparr>])"
    by (simp add: generate_conversation_title_def query_model_def Let_def py_split_ws_def
        is_space_def)
  have s1: "stage1_collect_responses (\<lambda>c. None) ''hi'' None tr
      = ([], tr @ map (\<lambda>m. \<lparr>call_model = m, call_messages = stage1_messages ''hi'' None,
                      call_max_tokens = 2048\<rparr>) COUNCIL_MODELS)" for tr
    by (simp add: stage1_collect_responses_def invoke_eval)
  have s2: "stage2_collect_rankings (\<lambda>c. None) ''hi'' [] None tr
      = (Inr ([], Map.empty),
         tr @ map (\<lambda>m. \<lparr>call_model = m, call_messages = stage2_messages ''hi'' [] None,
                      call_max_tokens = 2048\<rparr>) COUNCIL_MODELS)" for tr
    by (simp add: stage2_collect_rankings_def invoke_eval make_labels_def make_label_to_model_def)
  have ag: "calculate_aggregate_rankings [] Map.empty = Inr []"
    by (simp add: calculate_aggregate_rankings_def)
  have s3: "stage3_synthesize_final (\<lambda>c. None) ''hi'' [] [] None tr
      = (\<lparr>model = CHAIRMAN_MODEL, response = ''Error: Unable to generate final synthesis.''\<rparr>,
         tr @ [\<lparr>call_model = CHAIRMAN_MODEL, call_messages = stage3_messages ''hi'' [] [] None,
            call_max_tokens = 2048\<rparr>])" for tr
    by (simp add: stage3_synthesize_final_def query_model_def Let_def)
  show "event_generator (\<lambda>c. None) ''hi'' [] []
     = ([Stage1Start, Stage1Complete [],
         Stage2Start, Stage2Complete [] Map.empty [],
         Stage3Start,
         Stage3Complete \<lparr>model = CHAIRMAN_MODEL,
                          response = ''Error: Unable to generate final synthesis.''\<rparr>,
         TitleComplete ''hi...'', Complete],
        [\<lparr>call_model = ''groq/compound-mini'', call_messages = title_messages ''hi'',
          call_max_tokens = 30\<rparr>]
        @ map (\<lambda>m. \<lparr>call_model = m, call_messages = stage1_messages ''hi'' None,
                      call_max_tokens = 2048\<rparr>) COUNCIL_MODELS
        @ map (\<lambda>m. \<lparr>call_model = m, call_messages = stage2_messages ''hi'' [] None,
                      call_max_tokens = 2048\<rparr>) COUNCIL_MODELS
        @ [\<lparr>call_model = CHAIRMAN_MODEL, call_messages = stage3_messages ''hi'' [] [] None,
            call_max_tokens = 2048\<rparr>])"
    unfolding event_generator_def Let_def by (simp add: title s1 s2 ag s3)
qed

end
